theory Spec2Isabelle
  imports Complex_Main
begin

section \<open>Data model\<close>

text \<open>
  A shallow embedding of the DSP core of \<^verbatim>\<open>src/components/BirdsongCodec.tsx\<close>.

  Numbers. A JavaScript number and a \<^verbatim>\<open>Float32Array\<close> element are modelled as a
  \<^typ>\<open>real\<close>: the embedding is the code under exact arithmetic. Rounding, NaN and the
  infinities of IEEE arithmetic are not represented. Array lengths, loop counters and
  bin indices are \<^typ>\<open>nat\<close> (or \<^typ>\<open>int\<close> where the source can go below zero).

  Constants. The source imports its constants from \<^verbatim>\<open>../constants\<close>, which is not
  part of the sources at hand; every function that reads one takes the record
  \<open>codec_consts\<close> as a parameter.

  Randomness. \<^verbatim>\<open>Math.random()\<close> is a parameter \<open>rnd\<close>: \<open>rnd k\<close> is the value
  returned by the \<open>k\<close>-th call (counted from 0) made during one encode or decode.

  Scheduling. The \<^verbatim>\<open>await new Promise(r => setTimeout(r, 0))\<close> yields, the status
  text and the canvas drawing do not change the buffers and are left out.
\<close>

record codec_consts =
  SAMPLE_RATE :: real
  FFT_SIZE :: nat
  HOP_SIZE :: nat
  NUM_BANDS :: nat
  SPEECH_MAX_FREQ :: real
  BIRD_DATA_START_FREQ :: real
  BIRD_DATA_STEP :: real
  PITCH_MULTIPLIER :: real

text \<open>The band record of \<^verbatim>\<open>getMelBands\<close>: \<^verbatim>\<open>{start, end, center}\<close>
  (\<open>end\<close> is a keyword here, hence \<open>endHz\<close>).\<close>

record MelBand =
  start :: real
  endHz :: real
  center :: real

text \<open>\<^verbatim>\<open>FrameAnalysis\<close> and \<^verbatim>\<open>DecodedFrame\<close> of \<^verbatim>\<open>src/types.ts\<close> have the same
  three fields.\<close>

record FrameAnalysis =
  bandEnergies :: "real list"
  pitch :: real
  amplitude :: real

type_synonym DecodedFrame = FrameAnalysis

text \<open>The one exception the workers throw: \<^verbatim>\<open>new Error("Audio too short")\<close>.\<close>

datatype error = AudioTooShort

section \<open>Mel band table\<close>

definition hzToMel :: "real \<Rightarrow> real" where
  "hzToMel hz = 2595 * log 10 (1 + hz / 700)"

definition melToHz :: "real \<Rightarrow> real" where
  "melToHz mel = 700 * (10 powr (mel / 2595) - 1)"

definition getMelBands :: "codec_consts \<Rightarrow> MelBand list" where
  "getMelBands cs =
     (let minMel = hzToMel 100;
          maxMel = hzToMel (SPEECH_MAX_FREQ cs);
          step = (maxMel - minMel) / real (NUM_BANDS cs)
      in map (\<lambda>i. \<lparr>start = melToHz (minMel + real i * step),
                     endHz = melToHz (minMel + (real i + 1) * step),
                     center = melToHz (minMel + (real i + 0.5) * step)\<rparr>)
             [0..<NUM_BANDS cs])"

text \<open>A sample deployment, used where a closed instance is needed. The values are
  typical ones, not read from the source (the constants file is absent); \<open>8\<close> is the
  pitch multiplier shown in \<^verbatim>\<open>DSPDiagram.tsx\<close>.\<close>

definition demo_consts :: codec_consts where
  "demo_consts = \<lparr>SAMPLE_RATE = 44100, FFT_SIZE = 1024, HOP_SIZE = 256, NUM_BANDS = 16,
     SPEECH_MAX_FREQ = 4000, BIRD_DATA_START_FREQ = 6000, BIRD_DATA_STEP = 200,
     PITCH_MULTIPLIER = 8\<rparr>"

section \<open>Pitch extraction\<close>

text \<open>\<^verbatim>\<open>extractPitch\<close>. The inner loop
  \<^verbatim>\<open>for (let i = 0; i < buffer.length - period; i += step)\<close> with \<open>step = 2\<close>;
  the running sum is the last argument.\<close>

function corrLoop :: "real list \<Rightarrow> nat \<Rightarrow> nat \<Rightarrow> real \<Rightarrow> real" where
  "corrLoop buffer period i correlation =
     (if int i < int (length buffer) - int period
      then corrLoop buffer period (i + 2) (correlation + buffer ! i * buffer ! (i + period))
      else correlation)"
  by pat_completeness auto
termination
  by (relation "measure (\<lambda>(buffer, period, i, correlation). length buffer - i)") auto

text \<open>The outer loop \<^verbatim>\<open>for (let period = minPeriod; period < maxPeriod; period++)\<close>,
  carrying \<open>(bestCorrelation, bestPeriod)\<close>.\<close>

function periodLoop :: "real list \<Rightarrow> nat \<Rightarrow> nat \<Rightarrow> real \<times> nat \<Rightarrow> real \<times> nat" where
  "periodLoop buffer period maxPeriod (bestCorrelation, bestPeriod) =
     (if period < maxPeriod
      then (let correlation = corrLoop buffer period 0 0
            in if correlation > bestCorrelation
               then periodLoop buffer (period + 1) maxPeriod (correlation, period)
               else periodLoop buffer (period + 1) maxPeriod (bestCorrelation, bestPeriod))
      else (bestCorrelation, bestPeriod))"
  by pat_completeness auto
termination
  by (relation "measure (\<lambda>(buffer, period, maxPeriod, best). maxPeriod - period)") auto

text \<open>\<^verbatim>\<open>Math.sqrt(buffer.reduce((s, v) => s + v*v, 0) / buffer.length)\<close>.\<close>

definition rms :: "real list \<Rightarrow> real" where
  "rms buffer = sqrt (foldl (\<lambda>s v. s + v * v) 0 buffer / real (length buffer))"

text \<open>The periods are \<^typ>\<open>nat\<close>: the model covers \<open>sampleRate \<ge> 0\<close>, where both
  floors are non-negative.\<close>

definition extractPitch :: "real list \<Rightarrow> real \<Rightarrow> real" where
  "extractPitch buffer sampleRate =
     (let minPeriod = nat \<lfloor>sampleRate / 800\<rfloor>;
          maxPeriod = nat \<lfloor>sampleRate / 70\<rfloor>;
          (bestCorrelation, bestPeriod) = periodLoop buffer minPeriod maxPeriod (0, 0)
      in if rms buffer < 0.01 then 0
         else if bestPeriod > 0 then sampleRate / real bestPeriod else 0)"

section \<open>Magnitude spectrum and frame analysis\<close>

text \<open>The Hanning window \<^verbatim>\<open>0.5 * (1 - Math.cos(2 * Math.PI * i / (fftSize - 1)))\<close>.\<close>

definition hann :: "nat \<Rightarrow> nat \<Rightarrow> real" where
  "hann fftSize i = 0.5 * (1 - cos (2 * pi * real i / (real fftSize - 1)))"

definition windowedFrame :: "nat \<Rightarrow> real list \<Rightarrow> real list" where
  "windowedFrame fftSize samples =
     map (\<lambda>i. (if i < length samples then samples ! i else 0) * hann fftSize i) [0..<fftSize]"

text \<open>The inner DFT loop \<^verbatim>\<open>for (let n = 0; n < fftSize; n += 2)\<close>, carrying
  \<open>(r, i_val)\<close>; samples with \<open>|x| \<le> 1e-6\<close> are skipped.\<close>

function dftLoop :: "real list \<Rightarrow> real \<Rightarrow> nat \<Rightarrow> nat \<Rightarrow> real \<times> real \<Rightarrow> real \<times> real" where
  "dftLoop windowed angleFactor fftSize n (r, i_val) =
     (if n < fftSize
      then (let x = windowed ! n
            in if \<bar>x\<bar> > 1 / 1000000
               then (let angle = angleFactor * real n
                     in dftLoop windowed angleFactor fftSize (n + 2)
                          (r + x * cos angle, i_val + x * sin angle))
               else dftLoop windowed angleFactor fftSize (n + 2) (r, i_val))
      else (r, i_val))"
  by pat_completeness auto
termination
  by (relation "measure (\<lambda>(windowed, angleFactor, fftSize, n, acc). fftSize - n)") auto

text \<open>\<^verbatim>\<open>computeMagnitudeSpectrum\<close>: \<open>FFT_SIZE / 2\<close> magnitudes (a typed array of a
  fractional length is truncated, and writes past its end are dropped, hence \<open>div\<close>).\<close>

definition computeMagnitudeSpectrum :: "codec_consts \<Rightarrow> real list \<Rightarrow> real list" where
  "computeMagnitudeSpectrum cs samples =
     (let fftSize = FFT_SIZE cs;
          halfSize = fftSize div 2;
          windowed = windowedFrame fftSize samples
      in map (\<lambda>k. let angleFactor = - 2 * pi * real k / real fftSize;
                       (r, i_val) = dftLoop windowed angleFactor fftSize 0 (0, 0)
                   in sqrt (r * r + i_val * i_val))
             [0..<halfSize])"

text \<open>The peak search of one band,
  \<^verbatim>\<open>for (k = startBin; k <= endBin; k++) if (k < magnitudes.length) { if (magnitudes[k] > sum) sum = magnitudes[k]; }\<close>.
  Bins are \<^typ>\<open>int\<close>; a read at a negative index is \<^verbatim>\<open>undefined\<close> in the source and
  the comparison with it is false. The counter \<^verbatim>\<open>count\<close> is never read and is left out; \<open>sum0\<close> is the
  source's \<open>sum\<close>.\<close>

function bandPeakLoop :: "real list \<Rightarrow> int \<Rightarrow> int \<Rightarrow> real \<Rightarrow> real" where
  "bandPeakLoop magnitudes k endBin sum0 =
     (if k \<le> endBin
      then (if 0 \<le> k \<and> k < int (length magnitudes) \<and> magnitudes ! nat k > sum0
            then bandPeakLoop magnitudes (k + 1) endBin (magnitudes ! nat k)
            else bandPeakLoop magnitudes (k + 1) endBin sum0)
      else sum0)"
  by pat_completeness auto
termination
  by (relation "measure (\<lambda>(magnitudes, k, endBin, sum0). nat (endBin + 1 - k))") auto

definition analyzeSpeechFrame :: "codec_consts \<Rightarrow> real list \<Rightarrow> FrameAnalysis" where
  "analyzeSpeechFrame cs samples =
     (let magnitudes = computeMagnitudeSpectrum cs samples;
          binSize = SAMPLE_RATE cs / real (FFT_SIZE cs);
          energies = map (\<lambda>band. bandPeakLoop magnitudes \<lfloor>start band / binSize\<rfloor>
                                     \<lfloor>endHz band / binSize\<rfloor> 0)
                         (getMelBands cs);
          sumSq = foldl (\<lambda>s v. s + v * v) 0 samples
      in \<lparr>bandEnergies = energies,
          pitch = extractPitch samples (SAMPLE_RATE cs),
          amplitude = sqrt (sumSq / real (length samples))\<rparr>)"

section \<open>Framing and normalisation, shared by both workers\<close>

text \<open>\<^verbatim>\<open>Math.floor((inputData.length - FFT_SIZE) / HOP_SIZE)\<close>. For \<open>HOP_SIZE = 0\<close> the
  source divides by zero; statements that depend on the frame count assume
  \<open>0 < HOP_SIZE\<close>.\<close>

definition numFrames :: "codec_consts \<Rightarrow> real list \<Rightarrow> int" where
  "numFrames cs inputData = (int (length inputData) - int (FFT_SIZE cs)) div int (HOP_SIZE cs)"

text \<open>\<^verbatim>\<open>inputData.slice(start, end)\<close> for \<open>0 \<le> start \<le> end\<close>.\<close>

definition slice :: "real list \<Rightarrow> nat \<Rightarrow> nat \<Rightarrow> real list" where
  "slice xs a b = take (b - a) (drop a xs)"

text \<open>\<^verbatim>\<open>for (...) maxVal = Math.max(maxVal, Math.abs(outputData[i]))\<close>, from 0.\<close>

definition peakAbs :: "real list \<Rightarrow> real" where
  "peakAbs outputData = foldl (\<lambda>maxVal v. max maxVal \<bar>v\<bar>) 0 outputData"

text \<open>The closing block of both workers:
  \<^verbatim>\<open>if (maxVal > 0) { const gain = target / maxVal; for (...) outputData[i] *= gain; }\<close>
  with target 0.95 (encode) or 0.85 (decode).\<close>

definition normalize :: "real \<Rightarrow> real list \<Rightarrow> real list" where
  "normalize target outputData =
     (let maxVal = peakAbs outputData
      in if maxVal > 0
         then (let gain = target / maxVal in map (\<lambda>v. v * gain) outputData)
         else outputData)"

section \<open>Encoder\<close>

text \<open>The analysis pass of \<^verbatim>\<open>encodeTobirdsong\<close>: one \<open>FrameAnalysis\<close> per frame.\<close>

definition encodeAnalysis :: "codec_consts \<Rightarrow> real list \<Rightarrow> FrameAnalysis list" where
  "encodeAnalysis cs inputData =
     map (\<lambda>f. let start = f * HOP_SIZE cs
              in analyzeSpeechFrame cs (slice inputData start (start + FFT_SIZE cs)))
         [0..<nat (numFrames cs inputData)]"

text \<open>One step of the data payload loop over the bands, carrying
  \<open>(phaseData, dataSignal)\<close>.\<close>

definition dataStep ::
  "codec_consts \<Rightarrow> FrameAnalysis \<Rightarrow> FrameAnalysis \<Rightarrow> real \<Rightarrow> nat \<Rightarrow> real list \<times> real
     \<Rightarrow> real list \<times> real" where
  "dataStep cs frame next pos b st =
     (case st of (phaseData, dataSignal) \<Rightarrow>
        let bandE = bandEnergies frame ! b * (1 - pos) + bandEnergies next ! b * pos;
            carrierFreq = BIRD_DATA_START_FREQ cs + real b * BIRD_DATA_STEP cs;
            phaseData' = phaseData[b := phaseData ! b + 2 * pi * carrierFreq / SAMPLE_RATE cs]
        in (phaseData', dataSignal + sin (phaseData' ! b) * bandE))"

text \<open>The body of the synthesis loop for output index \<open>i\<close> (after the break test):
  the new phases and the sample written to \<open>outputData[i]\<close>. The local \<open>pitch\<close> of the
  source is \<open>pitchI\<close> here (\<open>pitch\<close> is the record field), and \<open>carrier\<close> is what the
  carrier block adds to \<open>sample\<close>.\<close>

definition encodeSample ::
  "codec_consts \<Rightarrow> FrameAnalysis list \<Rightarrow> nat \<Rightarrow> real \<times> real list \<Rightarrow> (real \<times> real list) \<times> real" where
  "encodeSample cs frames i st =
     (case st of (phaseMain, phaseData) \<Rightarrow>
        let frameIndex = i div HOP_SIZE cs;
            pos = real (i mod HOP_SIZE cs) / real (HOP_SIZE cs);
            frame = frames ! frameIndex;
            next = frames ! (frameIndex + 1);
            pitchI = pitch frame * (1 - pos) + pitch next * pos;
            amp = amplitude frame * (1 - pos) + amplitude next * pos;
            (phaseMain', carrier) =
               (if pitchI > 50
                then (let birdFreq = pitchI * PITCH_MULTIPLIER cs;
                          ph = phaseMain + 2 * pi * birdFreq / SAMPLE_RATE cs
                      in (ph, sin ph * 0.8))
                else (phaseMain, 0));
            (phaseData', dataSignal) =
               fold (dataStep cs frame next pos) [0..<NUM_BANDS cs] (phaseData, 0);
            sample = (carrier + dataSignal * 0.15) * amp
        in ((phaseMain', phaseData'), sample))"

text \<open>The synthesis loop \<^verbatim>\<open>for (let i = 0; i < outputLength; i++)\<close> with its
  \<^verbatim>\<open>if (frameIndex >= numFrames - 1) break\<close>; \<open>nf\<close> is \<open>numFrames\<close>.\<close>

function encodeLoop ::
  "codec_consts \<Rightarrow> FrameAnalysis list \<Rightarrow> int \<Rightarrow> nat \<Rightarrow> nat \<Rightarrow> (real \<times> real list) \<times> real list
     \<Rightarrow> (real \<times> real list) \<times> real list" where
  "encodeLoop cs frames nf outputLength i (phases, outputData) =
     (if i < outputLength
      then (if int (i div HOP_SIZE cs) \<ge> nf - 1 then (phases, outputData)
            else (let (phases', sample) = encodeSample cs frames i phases
                  in encodeLoop cs frames nf outputLength (i + 1)
                       (phases', outputData[i := sample])))
      else (phases, outputData))"
  by pat_completeness auto
termination
  by (relation "measure (\<lambda>(cs, frames, nf, outputLength, i, st). outputLength - i)") auto

text \<open>The buffer before normalisation.\<close>

definition encodeSynth :: "codec_consts \<Rightarrow> (nat \<Rightarrow> real) \<Rightarrow> real list \<Rightarrow> real list" where
  "encodeSynth cs rnd inputData =
     (let outputLength = length inputData;
          frames = encodeAnalysis cs inputData;
          phaseData = map (\<lambda>i. rnd i * 2 * pi) [0..<NUM_BANDS cs]
      in snd (encodeLoop cs frames (numFrames cs inputData) outputLength 0
                ((0, phaseData), replicate outputLength 0)))"

text \<open>\<^verbatim>\<open>encodeTobirdsong\<close> on a given buffer. \<open>Inl AudioTooShort\<close> is the throw (the
  worker catches it itself, reports it in the status line and returns \<^verbatim>\<open>null\<close>).\<close>

definition encodeTobirdsong :: "codec_consts \<Rightarrow> (nat \<Rightarrow> real) \<Rightarrow> real list \<Rightarrow> error + real list" where
  "encodeTobirdsong cs rnd inputData =
     (if numFrames cs inputData \<le> 0 then Inl AudioTooShort
      else Inr (normalize 0.95 (encodeSynth cs rnd inputData)))"

section \<open>Decoder: analysis pass\<close>

text \<open>The carrier peak search
  \<^verbatim>\<open>for (k = minBin; k < limitBin; k++) if (magnitudes[k] > maxMag) {...}\<close>, carrying
  \<open>(maxMag, peakBin)\<close>; a read outside the array is \<^verbatim>\<open>undefined\<close> and compares false.\<close>

function peakLoop :: "real list \<Rightarrow> int \<Rightarrow> int \<Rightarrow> real \<times> int \<Rightarrow> real \<times> int" where
  "peakLoop magnitudes k limitBin (maxMag, peakBin) =
     (if k < limitBin
      then (if 0 \<le> k \<and> k < int (length magnitudes) \<and> magnitudes ! nat k > maxMag
            then peakLoop magnitudes (k + 1) limitBin (magnitudes ! nat k, k)
            else peakLoop magnitudes (k + 1) limitBin (maxMag, peakBin))
      else (maxMag, peakBin))"
  by pat_completeness auto
termination
  by (relation "measure (\<lambda>(magnitudes, k, limitBin, best). nat (limitBin - k))") auto

text \<open>The interpolation
  \<^verbatim>\<open>refinedBin = peakBin + 0.5 * (alpha - gamma) / (alpha - 2*beta + gamma)\<close>.
  The source does not guard the division; where the denominator is 0 it yields NaN or an
  infinity, which the model does not represent (HOL has \<open>x / 0 = 0\<close>), so statements
  about the refinement assume a nonzero denominator.\<close>

definition refineBin :: "real \<Rightarrow> real \<Rightarrow> real \<Rightarrow> real \<Rightarrow> real" where
  "refineBin peakBin alpha beta gamma =
     peakBin + 0.5 * (alpha - gamma) / (alpha - 2 * beta + gamma)"

text \<open>Step 1 of the frame loop: the raw pitch estimate (the local \<open>pitch\<close> of the source,
  \<open>pitchRaw\<close> here) and \<open>maxMag\<close>.\<close>

definition carrierPitch :: "codec_consts \<Rightarrow> real list \<Rightarrow> real \<times> real" where
  "carrierPitch cs magnitudes =
     (let binSize = SAMPLE_RATE cs / real (FFT_SIZE cs);
          minBin = \<lfloor>600 / binSize\<rfloor>;
          limitBin = \<lfloor>5000 / binSize\<rfloor>;
          (maxMag, peakBin) = peakLoop magnitudes minBin limitBin (0, 0);
          pitchRaw =
            (if maxMag > 0.05
             then (let refinedBin =
                         (if peakBin > 0 \<and> peakBin < int (length magnitudes) - 1
                          then refineBin (of_int peakBin) (magnitudes ! nat (peakBin - 1))
                                 (magnitudes ! nat peakBin) (magnitudes ! nat (peakBin + 1))
                          else of_int peakBin);
                       birdFreq = refinedBin * binSize
                   in birdFreq / PITCH_MULTIPLIER cs)
             else 0)
      in (pitchRaw, maxMag))"

text \<open>Step 2: the band energies read from the data carriers.\<close>

definition recoverBands :: "codec_consts \<Rightarrow> real list \<Rightarrow> real list" where
  "recoverBands cs magnitudes =
     (let binSize = SAMPLE_RATE cs / real (FFT_SIZE cs)
      in map (\<lambda>b. let targetFreq = BIRD_DATA_START_FREQ cs + real b * BIRD_DATA_STEP cs;
                       centerBin = \<lfloor>targetFreq / binSize\<rfloor>;
                       bandMax = fold (\<lambda>k m. if 0 \<le> k \<and> k < int (length magnitudes)
                                              then max m (magnitudes ! nat k) else m)
                                      [centerBin - 2..centerBin + 2] 0;
                       eq = 1 + (real b / real (NUM_BANDS cs)) * 2
                   in bandMax * 80 * eq)
             [0..<NUM_BANDS cs])"

text \<open>The magnitudes of frame \<open>f\<close> and its raw (unsmoothed) pitch estimate.\<close>

definition frameMagnitudes :: "codec_consts \<Rightarrow> real list \<Rightarrow> nat \<Rightarrow> real list" where
  "frameMagnitudes cs inputData f =
     (let start = f * HOP_SIZE cs
      in computeMagnitudeSpectrum cs (slice inputData start (start + FFT_SIZE cs)))"

definition rawPitch :: "codec_consts \<Rightarrow> real list \<Rightarrow> nat \<Rightarrow> real" where
  "rawPitch cs inputData f = fst (carrierPitch cs (frameMagnitudes cs inputData f))"

text \<open>The median filter:
  \<^verbatim>\<open>pitchBuf.push(pitch); pitchBuf.shift(); sorted = [...pitchBuf].sort((a,b) => a-b); sorted[2]\<close>.
  The comparator \<open>a - b\<close> is NaN as soon as an operand is NaN, and the source's sort
  then does not order the buffer; \<open>sort\<close> orders real numbers, so \<open>median5\<close> is the
  source's \<open>sorted[2]\<close> only while every estimate in the buffer is a number.\<close>

definition pushShift :: "real list \<Rightarrow> real \<Rightarrow> real list" where
  "pushShift pitchBuf p = tl (pitchBuf @ [p])"

definition median5 :: "real list \<Rightarrow> real" where
  "median5 pitchBuf = sort pitchBuf ! 2"

text \<open>One iteration of the frame loop, carrying \<open>(pitchBuf, frames)\<close>.\<close>

definition decodeFrameStep ::
  "codec_consts \<Rightarrow> real list \<Rightarrow> nat \<Rightarrow> real list \<times> DecodedFrame list
     \<Rightarrow> real list \<times> DecodedFrame list" where
  "decodeFrameStep cs inputData f st =
     (case st of (pitchBuf, frames) \<Rightarrow>
        let magnitudes = frameMagnitudes cs inputData f;
            (pitchRaw, maxMag) = carrierPitch cs magnitudes;
            pitchBuf' = pushShift pitchBuf pitchRaw;
            smoothedPitch = median5 pitchBuf';
            energies = recoverBands cs magnitudes
        in (pitchBuf', frames @ [\<lparr>bandEnergies = energies, pitch = smoothedPitch,
                                   amplitude = maxMag\<rparr>]))"

definition decodeAnalysis :: "codec_consts \<Rightarrow> real list \<Rightarrow> nat \<Rightarrow> DecodedFrame list" where
  "decodeAnalysis cs inputData nf =
     snd (fold (decodeFrameStep cs inputData) [0..<nf] ([0, 0, 0, 0, 0], []))"

section \<open>Decoder: resynthesis pass\<close>

text \<open>The voiced branch, \<^verbatim>\<open>for (let h = 1; h <= 40; h++)\<close> with its
  \<^verbatim>\<open>if (freq > SPEECH_MAX_FREQ) break\<close>, carrying \<open>(harmonicPhases, sample)\<close>.\<close>

function harmonicLoop ::
  "codec_consts \<Rightarrow> DecodedFrame \<Rightarrow> DecodedFrame \<Rightarrow> real \<Rightarrow> real \<Rightarrow> nat \<Rightarrow> real list \<times> real
     \<Rightarrow> real list \<times> real" where
  "harmonicLoop cs frame next pos p h (harmonicPhases, sample) =
     (if h \<le> 40
      then (let freq = p * real h
            in if freq > SPEECH_MAX_FREQ cs then (harmonicPhases, sample)
               else (let ph0 = harmonicPhases ! h + 2 * pi * freq / SAMPLE_RATE cs;
                         ph = (if ph0 > 2 * pi then ph0 - 2 * pi else ph0);
                         harmonicPhases' = harmonicPhases[h := ph];
                         mel = hzToMel freq;
                         minMel = hzToMel 100;
                         maxMel = hzToMel (SPEECH_MAX_FREQ cs);
                         bandIdx = ((mel - minMel) / (maxMel - minMel)) * real (NUM_BANDS cs);
                         amp = (if bandIdx \<ge> 0 \<and> bandIdx < real (NUM_BANDS cs) - 1
                                then (let b1 = nat \<lfloor>bandIdx\<rfloor>;
                                          b2 = b1 + 1;
                                          frac = bandIdx - real b1;
                                          e1 = bandEnergies frame ! b1 * (1 - pos)
                                               + bandEnergies next ! b1 * pos;
                                          e2 = bandEnergies frame ! b2 * (1 - pos)
                                               + bandEnergies next ! b2 * pos
                                      in e1 * (1 - frac) + e2 * frac)
                                else 0)
                     in harmonicLoop cs frame next pos p (h + 1)
                          (harmonicPhases', sample + sin (harmonicPhases' ! h) * amp)))
      else (harmonicPhases, sample))"
  by pat_completeness auto
termination
  by (relation "measure (\<lambda>(cs, frame, next, pos, p, h, st). 41 - h)") auto

text \<open>The unvoiced branch, \<^verbatim>\<open>for (let b = 0; b < NUM_BANDS; b += 2)\<close>, carrying
  \<open>sibilance\<close>.\<close>

function sibilanceLoop ::
  "codec_consts \<Rightarrow> DecodedFrame \<Rightarrow> DecodedFrame \<Rightarrow> real \<Rightarrow> nat \<Rightarrow> real \<Rightarrow> real \<Rightarrow> nat \<Rightarrow> real
     \<Rightarrow> real" where
  "sibilanceLoop cs frame next pos i noisePhase noise b sibilance =
     (if b < NUM_BANDS cs
      then (let energy = bandEnergies frame ! b * (1 - pos) + bandEnergies next ! b * pos;
                f = center (getMelBands cs ! b)
            in sibilanceLoop cs frame next pos i noisePhase noise (b + 2)
                 (sibilance + sin (real i * f * 0.001 + noisePhase) * energy * noise))
      else sibilance)"
  by pat_completeness auto
termination
  by (relation "measure (\<lambda>(cs, frame, next, pos, i, noisePhase, noise, b, s). NUM_BANDS cs - b)")
     auto

text \<open>The body of the resynthesis loop for output index \<open>i\<close> (after the break test).
  The state is \<open>(harmonicPhases, noisePhase, calls)\<close>, \<open>calls\<close> counting the calls of
  \<^verbatim>\<open>Math.random()\<close> made so far; the second component is the value written to
  \<open>outputData[i]\<close>.\<close>

definition decodeSample ::
  "codec_consts \<Rightarrow> (nat \<Rightarrow> real) \<Rightarrow> DecodedFrame list \<Rightarrow> nat \<Rightarrow> real list \<times> real \<times> nat
     \<Rightarrow> (real list \<times> real \<times> nat) \<times> real" where
  "decodeSample cs rnd frames i st =
     (case st of (harmonicPhases, noisePhase, calls) \<Rightarrow>
        let idx = i div HOP_SIZE cs;
            pos = real (i mod HOP_SIZE cs) / real (HOP_SIZE cs);
            frame = frames ! idx;
            next = frames ! (idx + 1);
            p = pitch frame * (1 - pos) + pitch next * pos
        in if p > 60
           then (let (harmonicPhases', sample) =
                        harmonicLoop cs frame next pos p 1 (harmonicPhases, 0)
                 in ((harmonicPhases', noisePhase, calls), sample * 0.003))
           else (let noisePhase' = noisePhase + 1000;
                     noise = rnd calls * 2 - 1;
                     sibilance = sibilanceLoop cs frame next pos i noisePhase' noise 0 0;
                     sample = sibilance * 0.5
                 in ((harmonicPhases, noisePhase', calls + 1), sample * 0.003)))"

text \<open>The resynthesis loop with its \<^verbatim>\<open>if (idx >= frames.length - 1) break\<close>.\<close>

function decodeLoop ::
  "codec_consts \<Rightarrow> (nat \<Rightarrow> real) \<Rightarrow> DecodedFrame list \<Rightarrow> nat \<Rightarrow> nat
     \<Rightarrow> (real list \<times> real \<times> nat) \<times> real list \<Rightarrow> (real list \<times> real \<times> nat) \<times> real list" where
  "decodeLoop cs rnd frames outputLength i (st, outputData) =
     (if i < outputLength
      then (if int (i div HOP_SIZE cs) \<ge> int (length frames) - 1 then (st, outputData)
            else (let (st', sample) = decodeSample cs rnd frames i st
                  in decodeLoop cs rnd frames outputLength (i + 1)
                       (st', outputData[i := sample])))
      else (st, outputData))"
  by pat_completeness auto
termination
  by (relation "measure (\<lambda>(cs, rnd, frames, outputLength, i, st). outputLength - i)") auto

text \<open>The buffer before normalisation, from the decoded frames.\<close>

definition decodeSynth :: "codec_consts \<Rightarrow> (nat \<Rightarrow> real) \<Rightarrow> DecodedFrame list \<Rightarrow> nat \<Rightarrow> real list" where
  "decodeSynth cs rnd frames outputLength =
     snd (decodeLoop cs rnd frames outputLength 0
            ((replicate 64 0, 0, 0), replicate outputLength 0))"

text \<open>The resynthesis stage: the loop and the normalisation to 0.85.\<close>

definition decodeResynth :: "codec_consts \<Rightarrow> (nat \<Rightarrow> real) \<Rightarrow> DecodedFrame list \<Rightarrow> nat \<Rightarrow> real list" where
  "decodeResynth cs rnd frames outputLength = normalize 0.85 (decodeSynth cs rnd frames outputLength)"

definition decodeFrombirdsong :: "codec_consts \<Rightarrow> (nat \<Rightarrow> real) \<Rightarrow> real list \<Rightarrow> error + real list" where
  "decodeFrombirdsong cs rnd inputData =
     (if numFrames cs inputData \<le> 0 then Inl AudioTooShort
      else Inr (decodeResynth cs rnd
                  (decodeAnalysis cs inputData (nat (numFrames cs inputData)))
                  (length inputData)))"

section \<open>Notions used to state the properties\<close>

text \<open>The common width, in mel, of the intervals of the band table.\<close>

definition melStep :: "codec_consts \<Rightarrow> real" where
  "melStep cs = (hzToMel (SPEECH_MAX_FREQ cs) - hzToMel 100) / real (NUM_BANDS cs)"

text \<open>The five most recent raw pitch estimates at frame \<open>f\<close>, oldest first: the
  estimates of frames \<open>f - 4, ..., f\<close>, with 0 (the seed of the smoothing buffer) where the
  frame index would be negative.\<close>

definition recentPitches :: "codec_consts \<Rightarrow> real list \<Rightarrow> nat \<Rightarrow> real list" where
  "recentPitches cs inputData f =
     map (\<lambda>j. if f + j < 4 then 0 else rawPitch cs inputData (f + j - 4)) [0..<5]"

text \<open>Two frame sequences agree on pitch and band energies (the amplitudes are free).\<close>

definition samePitchAndBands :: "DecodedFrame list \<Rightarrow> DecodedFrame list \<Rightarrow> bool" where
  "samePitchAndBands fs fs' =
     (map pitch fs = map pitch fs' \<and> map bandEnergies fs = map bandEnergies fs')"

text \<open>The unnormalised autocorrelation of a window at lag \<open>period\<close>: the sum of
  \<open>buffer[i] * buffer[i + period]\<close> over the even \<open>i\<close> with \<open>i + period\<close> inside the
  window.\<close>

definition autocorr :: "real list \<Rightarrow> nat \<Rightarrow> real" where
  "autocorr buffer period =
     (\<Sum>i | even i \<and> i + period < length buffer. buffer ! i * buffer ! (i + period))"

text \<open>The periods the search visits.\<close>

definition candidatePeriods :: "real \<Rightarrow> nat set" where
  "candidatePeriods sampleRate = {nat \<lfloor>sampleRate / 800\<rfloor> ..< nat \<lfloor>sampleRate / 70\<rfloor>}"

text \<open>The invariant of the period loop: after the periods \<open>lo, ..., p - 1\<close>, either
  nothing was found (no positive sum so far) or \<open>bestPeriod\<close> is the first period with
  the largest sum, which is positive.\<close>

definition bestSoFar :: "real list \<Rightarrow> nat \<Rightarrow> nat \<Rightarrow> real \<times> nat \<Rightarrow> bool" where
  "bestSoFar buffer lo p best =
     (case best of (bc, bp) \<Rightarrow>
        (bc = 0 \<and> bp = 0 \<and> (\<forall>q. lo \<le> q \<and> q < p \<longrightarrow> autocorr buffer q \<le> 0))
      \<or> (lo \<le> bp \<and> bp < p \<and> bc = autocorr buffer bp \<and> 0 < bc
          \<and> (\<forall>q. lo \<le> q \<and> q < p \<longrightarrow> autocorr buffer q \<le> bc)
          \<and> (\<forall>q. lo \<le> q \<and> q < bp \<longrightarrow> autocorr buffer q < bc)))"

text \<open>A test window of \<open>d + 1\<close> samples: two unit impulses \<open>d\<close> samples apart.\<close>

definition impulsePair :: "nat \<Rightarrow> real list" where
  "impulsePair d = 1 # replicate (d - 1) 0 @ [1]"

text \<open>The phase advance per sample of data carrier \<open>b\<close>.\<close>

definition dataPhaseStep :: "codec_consts \<Rightarrow> nat \<Rightarrow> real" where
  "dataPhaseStep cs b =
     2 * pi * (BIRD_DATA_START_FREQ cs + real b * BIRD_DATA_STEP cs) / SAMPLE_RATE cs"

text \<open>A test buffer of 1536 samples (two frames under \<open>demo_consts\<close>): silence but for one
  quiet click at sample 512; and its first analysis frame.\<close>

definition quietClick :: "real list" where
  "quietClick = (replicate 1536 0)[512 := 1 / 25]"

definition frame0 :: "real list" where
  "frame0 = slice quietClick 0 1024"

text \<open>The refinement of frame \<open>f\<close> is defined: where the frame loop evaluates the
  interpolation (a peak above the threshold at an interior bin), its denominator is not 0.
  On such a frame the raw estimate of the source is a finite number, and \<open>rawPitch\<close> is
  that number; on the others the source's estimate is NaN or an infinity, which
  \<open>rawPitch\<close> does not represent.\<close>

definition refinementDefined :: "codec_consts \<Rightarrow> real list \<Rightarrow> nat \<Rightarrow> bool" where
  "refinementDefined cs inputData f =
     (let magnitudes = frameMagnitudes cs inputData f;
          binSize = SAMPLE_RATE cs / real (FFT_SIZE cs);
          (maxMag, peakBin) = peakLoop magnitudes \<lfloor>600 / binSize\<rfloor> \<lfloor>5000 / binSize\<rfloor> (0, 0)
      in maxMag > 0.05 \<and> peakBin > 0 \<and> peakBin < int (length magnitudes) - 1
         \<longrightarrow> magnitudes ! nat (peakBin - 1) - 2 * magnitudes ! nat peakBin
               + magnitudes ! nat (peakBin + 1) \<noteq> 0)"

text \<open>A test buffer of 1792 samples (three frames under \<open>demo_consts\<close>): silence but for one
  full-scale click at sample 200.\<close>

definition loudClick :: "real list" where
  "loudClick = (replicate 1792 0)[200 := 1]"

text \<open>The magnitude at bin \<open>k\<close> of a 1024-point frame in which exactly two samples survive
  the window, with windowed values \<open>u\<close> and \<open>v\<close>, \<open>d\<close> samples apart.\<close>

definition pairMagnitude :: "real \<Rightarrow> real \<Rightarrow> nat \<Rightarrow> nat \<Rightarrow> real" where
  "pairMagnitude u v d k = sqrt (u\<^sup>2 + v\<^sup>2 + 2 * u * v * cos (2 * pi * real k * real d / 1024))"

text \<open>A test buffer of 2304 samples (five frames under \<open>demo_consts\<close>): two clicks 16
  samples apart, which only frame 0 contains, and two clicks of opposite sign 6 samples
  apart, which frames 1 to 4 contain.\<close>

definition twoPairs :: "real list" where
  "twoPairs = (replicate 2304 0)[128 := 1, 144 := 1, 1152 := 1, 1158 := - 1]"

section \<open>Loop equations\<close>

text \<open>The defining equations of the loops are unconditional; they are unfolded by hand
  (\<open>subst\<close>) and kept out of the simplifier.\<close>

declare corrLoop.simps [simp del] periodLoop.simps [simp del] dftLoop.simps [simp del]
  bandPeakLoop.simps [simp del] encodeLoop.simps [simp del] peakLoop.simps [simp del]
  harmonicLoop.simps [simp del] sibilanceLoop.simps [simp del] decodeLoop.simps [simp del]

section \<open>The mel scale and the band table\<close>

lemma melToHz_hzToMel: "- 700 < hz \<Longrightarrow> melToHz (hzToMel hz) = hz"
  by (simp add: melToHz_def hzToMel_def)

lemma hzToMel_melToHz: "hzToMel (melToHz m) = m"
proof -
  have "1 + 700 * (10 powr (m / 2595) - 1) / 700 = 10 powr (m / 2595)"
    by (simp add: field_simps)
  then show ?thesis
    unfolding melToHz_def hzToMel_def by (simp del: distrib_left right_diff_distrib)
qed

lemma melToHz_strict_mono: "a < b \<Longrightarrow> melToHz a < melToHz b"
  by (simp add: melToHz_def)

lemma hzToMel_strict_mono: "- 700 < a \<Longrightarrow> a < b \<Longrightarrow> hzToMel a < hzToMel b"
  by (simp add: hzToMel_def)

lemma length_getMelBands: "length (getMelBands cs) = NUM_BANDS cs"
  by (simp add: getMelBands_def Let_def)

lemma nth_getMelBands:
  "i < NUM_BANDS cs \<Longrightarrow> getMelBands cs ! i =
     \<lparr>start = melToHz (hzToMel 100 + real i * melStep cs),
      endHz = melToHz (hzToMel 100 + (real i + 1) * melStep cs),
      center = melToHz (hzToMel 100 + (real i + 0.5) * melStep cs)\<rparr>"
  by (simp add: getMelBands_def melStep_def Let_def)

lemma melStep_pos:
  assumes "0 < NUM_BANDS cs" and "100 < SPEECH_MAX_FREQ cs"
  shows "0 < melStep cs"
proof -
  have "hzToMel 100 < hzToMel (SPEECH_MAX_FREQ cs)"
    using assms(2) by (intro hzToMel_strict_mono) simp_all
  then show ?thesis using assms(1) by (simp add: melStep_def)
qed

text \<open>
  Claim C5. For at least one band and \<open>SPEECH_MAX_FREQ\<close> above 100 Hz, \<open>getMelBands\<close>
  returns exactly \<open>NUM_BANDS\<close> bands; band \<open>i\<close> has start, end and centre at the
  inverse mel transform of \<open>mel 100 + i w\<close>, \<open>mel 100 + (i + 1) w\<close> and
  \<open>mel 100 + (i + 1/2) w\<close>, where \<open>w\<close> is the \<open>NUM_BANDS\<close>-th part of
  \<open>mel SPEECH_MAX_FREQ - mel 100\<close>, so every band is \<open>w\<close> wide in mel; each band ends where
  the next starts; the centres increase strictly; the first band starts at 100 Hz and the
  last ends at \<open>SPEECH_MAX_FREQ\<close> (exactly, in exact arithmetic).
\<close>

theorem getMelBands_table:
  assumes "0 < NUM_BANDS cs" and "100 < SPEECH_MAX_FREQ cs"
  shows "length (getMelBands cs) = NUM_BANDS cs
    \<and> (\<forall>i<NUM_BANDS cs.
          start (getMelBands cs ! i) = melToHz (hzToMel 100 + real i * melStep cs)
        \<and> endHz (getMelBands cs ! i) = melToHz (hzToMel 100 + (real i + 1) * melStep cs)
        \<and> center (getMelBands cs ! i) = melToHz (hzToMel 100 + (real i + 1 / 2) * melStep cs)
        \<and> hzToMel (endHz (getMelBands cs ! i)) - hzToMel (start (getMelBands cs ! i))
            = melStep cs)
    \<and> (\<forall>i. Suc i < NUM_BANDS cs
          \<longrightarrow> endHz (getMelBands cs ! i) = start (getMelBands cs ! Suc i))
    \<and> (\<forall>i j. i < j \<and> j < NUM_BANDS cs
          \<longrightarrow> center (getMelBands cs ! i) < center (getMelBands cs ! j))
    \<and> start (getMelBands cs ! 0) = 100
    \<and> endHz (getMelBands cs ! (NUM_BANDS cs - 1)) = SPEECH_MAX_FREQ cs"
proof -
  let ?N = "NUM_BANDS cs"
  have w: "0 < melStep cs" using assms by (rule melStep_pos)
  have fields: "\<forall>i<?N.
          start (getMelBands cs ! i) = melToHz (hzToMel 100 + real i * melStep cs)
        \<and> endHz (getMelBands cs ! i) = melToHz (hzToMel 100 + (real i + 1) * melStep cs)
        \<and> center (getMelBands cs ! i) = melToHz (hzToMel 100 + (real i + 1 / 2) * melStep cs)
        \<and> hzToMel (endHz (getMelBands cs ! i)) - hzToMel (start (getMelBands cs ! i))
            = melStep cs"
    by (simp add: nth_getMelBands hzToMel_melToHz algebra_simps)
  have contiguous:
    "\<forall>i. Suc i < ?N \<longrightarrow> endHz (getMelBands cs ! i) = start (getMelBands cs ! Suc i)"
    by (simp add: nth_getMelBands algebra_simps)
  have increasing:
    "\<forall>i j. i < j \<and> j < ?N \<longrightarrow> center (getMelBands cs ! i) < center (getMelBands cs ! j)"
  proof (intro allI impI)
    fix i j assume ij: "i < j \<and> j < ?N"
    then have "real i * melStep cs < real j * melStep cs" using w by simp
    then have "melToHz (hzToMel 100 + (real i + 0.5) * melStep cs)
             < melToHz (hzToMel 100 + (real j + 0.5) * melStep cs)"
      by (intro melToHz_strict_mono) (simp add: algebra_simps)
    then show "center (getMelBands cs ! i) < center (getMelBands cs ! j)"
      using ij by (simp add: nth_getMelBands)
  qed
  have first: "start (getMelBands cs ! 0) = 100"
    using assms(1) by (simp add: nth_getMelBands melToHz_hzToMel)
  have "hzToMel 100 + (real (?N - 1) + 1) * melStep cs = hzToMel (SPEECH_MAX_FREQ cs)"
    using assms(1) by (simp add: melStep_def of_nat_diff)
  then have last: "endHz (getMelBands cs ! (?N - 1)) = SPEECH_MAX_FREQ cs"
    using assms by (simp add: nth_getMelBands melToHz_hzToMel)
  show ?thesis using length_getMelBands fields contiguous increasing first last by blast
qed

theorem getMelBands_table_witness:
  "length (getMelBands demo_consts) = 16
   \<and> start (getMelBands demo_consts ! 0) = 100
   \<and> endHz (getMelBands demo_consts ! 15) = 4000
   \<and> endHz (getMelBands demo_consts ! 0) = start (getMelBands demo_consts ! 1)
   \<and> center (getMelBands demo_consts ! 0) < center (getMelBands demo_consts ! 1)"
proof -
  have n: "0 < NUM_BANDS demo_consts" and m: "100 < SPEECH_MAX_FREQ demo_consts"
    by (simp_all add: demo_consts_def)
  have N: "NUM_BANDS demo_consts = 16" and M: "SPEECH_MAX_FREQ demo_consts = 4000"
    by (simp_all add: demo_consts_def)
  note t = getMelBands_table [OF n m, unfolded N M]
  from t have a: "length (getMelBands demo_consts) = 16" by blast
  from t have b: "start (getMelBands demo_consts ! 0) = 100" by blast
  from t have c: "endHz (getMelBands demo_consts ! 15) = 4000" by simp
  from t have "\<forall>i. Suc i < 16
      \<longrightarrow> endHz (getMelBands demo_consts ! i) = start (getMelBands demo_consts ! Suc i)"
    by blast
  then have d: "endHz (getMelBands demo_consts ! 0) = start (getMelBands demo_consts ! 1)"
    by simp
  from t have "\<forall>i j. i < j \<and> j < 16
      \<longrightarrow> center (getMelBands demo_consts ! i) < center (getMelBands demo_consts ! j)"
    by blast
  then have e: "center (getMelBands demo_consts ! 0) < center (getMelBands demo_consts ! 1)"
    by simp
  show ?thesis using a b c d e by blast
qed

section \<open>Parabolic refinement\<close>

lemma peakLoop_example:
  "peakLoop ([0, 1, 2, 1] @ replicate 28 0) 0 7 (0, 0) = (2, 2)"
  by (simp add: peakLoop.simps nth_append)

text \<open>
  Claim C7. For a symmetric triple \<open>[a, b, a]\<close> around the peak, with the interpolation
  defined (\<open>a - 2 b + a \<noteq> 0\<close>), the refined bin is the peak bin itself: the offset
  \<open>0.5 (a - a) / (a - 2 b + a)\<close> is exactly 0. In the decoder: when the carrier peak found
  at bin \<open>k\<close> (above the threshold, inside the spectrum) has such neighbours, the raw pitch
  is that of bin \<open>k\<close> itself, \<open>k * binSize / PITCH_MULTIPLIER\<close>.
\<close>

theorem refineBin_symmetric:
  "a - 2 * b + a \<noteq> 0 \<Longrightarrow>
     refineBin peakBin a b a = peakBin
   \<and> refineBin peakBin a b a - peakBin = 0
   \<and> (\<forall>cs magnitudes maxMag k.
         peakLoop magnitudes \<lfloor>600 / (SAMPLE_RATE cs / real (FFT_SIZE cs))\<rfloor>
                  \<lfloor>5000 / (SAMPLE_RATE cs / real (FFT_SIZE cs))\<rfloor> (0, 0) = (maxMag, k)
         \<and> 0.05 < maxMag \<and> 0 < k \<and> k < int (length magnitudes) - 1
         \<and> magnitudes ! nat (k - 1) = a \<and> magnitudes ! nat k = b
         \<and> magnitudes ! nat (k + 1) = a
         \<longrightarrow> fst (carrierPitch cs magnitudes)
               = of_int k * (SAMPLE_RATE cs / real (FFT_SIZE cs)) / PITCH_MULTIPLIER cs)"
  by (simp add: refineBin_def carrierPitch_def Let_def)

text \<open>An instance: a 64-point frame at 44100 Hz (bins 0 to 6 are searched) whose spectrum
  peaks at bin 2 with equal neighbours.\<close>

theorem refineBin_symmetric_witness:
  "(1::real) - 2 * 2 + 1 \<noteq> 0 \<and> refineBin 10 1 2 1 = 10 \<and> refineBin 10 1 2 1 - 10 = 0
   \<and> fst (carrierPitch (demo_consts\<lparr>FFT_SIZE := 64\<rparr>) ([0, 1, 2, 1] @ replicate 28 0))
       = 2 * (44100 / 64) / 8"
proof -
  let ?cs = "demo_consts\<lparr>FFT_SIZE := 64\<rparr>"
  let ?m = "[0, 1, 2, 1] @ replicate 28 (0::real)"
  have h: "(1::real) - 2 * 2 + 1 \<noteq> 0" by simp
  note t = refineBin_symmetric [OF h, of 10]
  have b: "\<lfloor>600 / (SAMPLE_RATE ?cs / real (FFT_SIZE ?cs))\<rfloor> = 0"
          "\<lfloor>5000 / (SAMPLE_RATE ?cs / real (FFT_SIZE ?cs))\<rfloor> = 7"
    by (simp_all add: demo_consts_def)
  have p: "peakLoop ?m \<lfloor>600 / (SAMPLE_RATE ?cs / real (FFT_SIZE ?cs))\<rfloor>
                  \<lfloor>5000 / (SAMPLE_RATE ?cs / real (FFT_SIZE ?cs))\<rfloor> (0, 0) = (2, 2)"
    unfolding b by (rule peakLoop_example)
  from t have "peakLoop ?m \<lfloor>600 / (SAMPLE_RATE ?cs / real (FFT_SIZE ?cs))\<rfloor>
                  \<lfloor>5000 / (SAMPLE_RATE ?cs / real (FFT_SIZE ?cs))\<rfloor> (0, 0) = (2, 2)
         \<and> 0.05 < (2::real) \<and> 0 < (2::int) \<and> (2::int) < int (length ?m) - 1
         \<and> ?m ! nat (2 - 1) = 1 \<and> ?m ! nat 2 = 2 \<and> ?m ! nat (2 + 1) = 1
         \<longrightarrow> fst (carrierPitch ?cs ?m)
               = of_int 2 * (SAMPLE_RATE ?cs / real (FFT_SIZE ?cs)) / PITCH_MULTIPLIER ?cs"
    by blast
  then have "fst (carrierPitch ?cs ?m)
               = of_int 2 * (SAMPLE_RATE ?cs / real (FFT_SIZE ?cs)) / PITCH_MULTIPLIER ?cs"
    using p by (simp add: nth_append)
  then have c: "fst (carrierPitch ?cs ?m) = 2 * (44100 / 64) / 8"
    by (simp add: demo_consts_def)
  show ?thesis using t c by simp
qed

section \<open>Frame count, lengths and the error\<close>

lemma numFrames_le_0_iff:
  assumes "0 < HOP_SIZE cs"
  shows "(numFrames cs x \<le> 0) = (length x < FFT_SIZE cs + HOP_SIZE cs)"
proof -
  have h: "0 < int (HOP_SIZE cs)" using assms by simp
  have "(numFrames cs x \<le> 0) = (int (length x) - int (FFT_SIZE cs) < int (HOP_SIZE cs))"
    unfolding numFrames_def
    using pos_imp_zdiv_pos_iff [OF h, of "int (length x) - int (FFT_SIZE cs)"]
    by linarith
  then show ?thesis by linarith
qed

lemma length_normalize: "length (normalize t xs) = length xs"
  by (simp add: normalize_def Let_def)

lemma encodeLoop_length: "length (snd (encodeLoop cs frames nf n i st)) = length (snd st)"
proof (induction cs frames nf n i st rule: encodeLoop.induct)
  case (1 cs frames nf n i phases out)
  show ?case
    apply (subst encodeLoop.simps)
    using 1 by (auto split: prod.splits simp: Let_def)
qed

lemma decodeLoop_length: "length (snd (decodeLoop cs rnd frames n i st)) = length (snd st)"
proof (induction cs rnd frames n i st rule: decodeLoop.induct)
  case (1 cs rnd frames n i s out)
  show ?case
    apply (subst decodeLoop.simps)
    using 1 by (auto split: prod.splits simp: Let_def)
qed

lemma length_encodeSynth: "length (encodeSynth cs rnd x) = length x"
  by (simp add: encodeSynth_def Let_def encodeLoop_length)

lemma length_decodeSynth: "length (decodeSynth cs rnd frames n) = n"
  by (simp add: decodeSynth_def decodeLoop_length)

lemma demo_numFrames_2048: "numFrames demo_consts (replicate 2048 v) = 4"
  by (simp add: numFrames_def demo_consts_def)

text \<open>
  Claim C1. For every buffer that passes the frame-count test (\<open>numFrames > 0\<close>, at least
  one full analysis frame), \<open>encodeTobirdsong\<close> returns a buffer of the length of its
  input, and so does \<open>decodeFrombirdsong\<close>.
\<close>

theorem encode_decode_length:
  "0 < numFrames cs x \<Longrightarrow>
     (\<exists>y. encodeTobirdsong cs rnd x = Inr y \<and> length y = length x) \<and>
     (\<exists>y. decodeFrombirdsong cs rnd' x = Inr y \<and> length y = length x)"
  by (simp add: encodeTobirdsong_def decodeFrombirdsong_def decodeResynth_def
      length_normalize length_encodeSynth length_decodeSynth)

theorem encode_decode_length_witness:
  "0 < numFrames demo_consts (replicate 2048 (1 / 2)) \<and>
   (\<exists>y. encodeTobirdsong demo_consts (\<lambda>k. 0) (replicate 2048 (1 / 2)) = Inr y
         \<and> length y = 2048) \<and>
   (\<exists>y. decodeFrombirdsong demo_consts (\<lambda>k. 0) (replicate 2048 (1 / 2)) = Inr y
         \<and> length y = 2048)"
  using encode_decode_length [of demo_consts "replicate 2048 (1 / 2)" "\<lambda>k. 0" "\<lambda>k. 0"]
  by (simp add: demo_numFrames_2048)

section \<open>Peak and normalisation\<close>

lemma foldl_peak_ge_init: "(a::real) \<le> foldl (\<lambda>m v. max m \<bar>v\<bar>) a xs"
proof (induction xs arbitrary: a)
  case Nil show ?case by simp
next
  case (Cons x xs)
  have "a \<le> max a \<bar>x\<bar>" by simp
  also have "\<dots> \<le> foldl (\<lambda>m v. max m \<bar>v\<bar>) (max a \<bar>x\<bar>) xs" by (rule Cons.IH)
  finally show ?case by simp
qed

lemma foldl_peak_ge_elem: "x \<in> set xs \<Longrightarrow> \<bar>x::real\<bar> \<le> foldl (\<lambda>m v. max m \<bar>v\<bar>) a xs"
proof (induction xs arbitrary: a)
  case Nil then show ?case by simp
next
  case (Cons y ys)
  show ?case
  proof (cases "x = y")
    case True
    have "\<bar>x\<bar> \<le> max a \<bar>y\<bar>" using True by simp
    also have "\<dots> \<le> foldl (\<lambda>m v. max m \<bar>v\<bar>) (max a \<bar>y\<bar>) ys" by (rule foldl_peak_ge_init)
    finally show ?thesis by simp
  next
    case False
    then have "x \<in> set ys" using Cons.prems by simp
    then show ?thesis using Cons.IH by simp
  qed
qed

lemma foldl_peak_attained:
  "foldl (\<lambda>m v. max m \<bar>v\<bar>) a xs = (a::real) \<or> (\<exists>x\<in>set xs. foldl (\<lambda>m v. max m \<bar>v\<bar>) a xs = \<bar>x\<bar>)"
proof (induction xs arbitrary: a)
  case Nil show ?case by simp
next
  case (Cons y ys)
  from Cons.IH [of "max a \<bar>y\<bar>"] show ?case
    by (auto simp: max_def split: if_splits)
qed

lemma foldl_peak_scale:
  "0 \<le> (g::real) \<Longrightarrow> foldl (\<lambda>m v. max m \<bar>v\<bar>) (a * g) (map (\<lambda>v. v * g) xs)
     = foldl (\<lambda>m v. max m \<bar>v\<bar>) a xs * g"
proof (induction xs arbitrary: a)
  case Nil show ?case by simp
next
  case (Cons y ys)
  have "max (a * g) \<bar>y * g\<bar> = max a \<bar>y\<bar> * g"
    using Cons.prems by (simp add: abs_mult max_mult_distrib_right)
  then show ?case using Cons by simp
qed

lemma peakAbs_nonneg: "0 \<le> peakAbs xs"
  unfolding peakAbs_def by (rule foldl_peak_ge_init)

lemma peakAbs_ge: "x \<in> set xs \<Longrightarrow> \<bar>x\<bar> \<le> peakAbs xs"
  unfolding peakAbs_def by (rule foldl_peak_ge_elem)

lemma peakAbs_attained: "0 < peakAbs xs \<Longrightarrow> \<exists>x\<in>set xs. \<bar>x\<bar> = peakAbs xs"
  unfolding peakAbs_def using foldl_peak_attained [of 0 xs] by auto

lemma peakAbs_pos_iff: "(0 < peakAbs xs) = (\<exists>x\<in>set xs. x \<noteq> 0)"
proof
  assume "0 < peakAbs xs"
  then obtain x where "x \<in> set xs" "\<bar>x\<bar> = peakAbs xs" using peakAbs_attained by blast
  have "x \<in> set xs" by fact
  moreover have "x \<noteq> 0" using \<open>0 < peakAbs xs\<close> \<open>\<bar>x\<bar> = peakAbs xs\<close> by auto
  ultimately show "\<exists>x\<in>set xs. x \<noteq> 0" by blast
next
  assume "\<exists>x\<in>set xs. x \<noteq> 0"
  then obtain x where x: "x \<in> set xs" "x \<noteq> 0" by blast
  then have "0 < \<bar>x\<bar>" by simp
  also have "\<dots> \<le> peakAbs xs" using x(1) by (rule peakAbs_ge)
  finally show "0 < peakAbs xs" .
qed

lemma peakAbs_scale: "0 \<le> g \<Longrightarrow> peakAbs (map (\<lambda>v. v * g) xs) = peakAbs xs * g"
  unfolding peakAbs_def using foldl_peak_scale [of g 0 xs] by simp

lemma peakAbs_normalize:
  assumes "0 < peakAbs xs" and "0 \<le> t"
  shows "peakAbs (normalize t xs) = t"
proof -
  have "0 \<le> t / peakAbs xs" using assms by simp
  then have "peakAbs (map (\<lambda>v. v * (t / peakAbs xs)) xs) = peakAbs xs * (t / peakAbs xs)"
    by (rule peakAbs_scale)
  then show ?thesis using assms by (simp add: normalize_def Let_def)
qed

lemma normalize_silent: "\<not> 0 < peakAbs xs \<Longrightarrow> normalize t xs = xs"
  by (simp add: normalize_def Let_def)

lemma all_zero_replicate: "(\<forall>x\<in>set xs. x = (0::real)) \<Longrightarrow> xs = replicate (length xs) 0"
  by (induction xs) auto

lemma peakAbs_replicate_0: "peakAbs (replicate n 0) = 0"
proof -
  have "\<not> 0 < peakAbs (replicate n 0)" by (simp add: peakAbs_pos_iff)
  then show ?thesis using peakAbs_nonneg [of "replicate n 0"] by linarith
qed

lemma normalize_peak:
  assumes "\<exists>x\<in>set xs. x \<noteq> 0" and "0 \<le> t"
  shows "(\<forall>v\<in>set (normalize t xs). \<bar>v\<bar> \<le> t) \<and> (\<exists>v\<in>set (normalize t xs). \<bar>v\<bar> = t)"
proof -
  have p: "0 < peakAbs xs" using assms(1) by (simp add: peakAbs_pos_iff)
  then have eq: "peakAbs (normalize t xs) = t" using assms(2) by (rule peakAbs_normalize)
  have le: "\<forall>v\<in>set (normalize t xs). \<bar>v\<bar> \<le> t" using peakAbs_ge [of _ "normalize t xs"] eq by auto
  have "\<exists>x\<in>set xs. \<bar>x\<bar> = peakAbs xs" using p by (rule peakAbs_attained)
  then obtain x where x: "x \<in> set xs" "\<bar>x\<bar> = peakAbs xs" by blast
  have "x * (t / peakAbs xs) \<in> set (normalize t xs)"
    using p x(1) by (simp add: normalize_def Let_def image_iff del: times_divide_eq_right) blast
  moreover have "\<bar>x * (t / peakAbs xs)\<bar> = t" using p x(2) assms(2) by (simp add: abs_mult)
  ultimately show ?thesis using le by blast
qed

section \<open>Silence\<close>

lemma foldl_sumsq: "foldl (\<lambda>s v. s + v * v) (a::real) xs = a + (\<Sum>v\<leftarrow>xs. v * v)"
  by (induction xs arbitrary: a) simp_all

lemma rms_eq: "rms buffer = sqrt ((\<Sum>v\<leftarrow>buffer. v\<^sup>2) / real (length buffer))"
  by (simp add: rms_def foldl_sumsq power2_eq_square)

lemma rms_replicate_0: "rms (replicate n 0) = 0"
  by (simp add: rms_def foldl_sumsq sum_list_replicate)

lemma silence_gate: "rms buffer < 0.01 \<Longrightarrow> extractPitch buffer sr = 0"
  by (simp add: extractPitch_def Let_def split: prod.splits)

lemma slice_replicate: "slice (replicate n v) a b = replicate (min (b - a) (n - a)) v"
  by (simp add: slice_def)

lemma analyze_silence:
  "pitch (analyzeSpeechFrame cs (replicate m 0)) = 0 \<and> amplitude (analyzeSpeechFrame cs (replicate m 0)) = 0"
  by (simp add: analyzeSpeechFrame_def Let_def silence_gate rms_replicate_0 foldl_sumsq sum_list_replicate)

lemma length_encodeAnalysis: "length (encodeAnalysis cs x) = nat (numFrames cs x)"
  by (simp add: encodeAnalysis_def)

lemma encodeAnalysis_silence:
  "fr \<in> set (encodeAnalysis cs (replicate n 0)) \<Longrightarrow> pitch fr = 0 \<and> amplitude fr = 0"
  by (auto simp: encodeAnalysis_def Let_def slice_replicate analyze_silence)

lemma encodeSample_zero_amp:
  assumes "amplitude (frames ! (i div HOP_SIZE cs)) = 0"
      and "amplitude (frames ! (i div HOP_SIZE cs + 1)) = 0"
  shows "snd (encodeSample cs frames i st) = 0"
  using assms by (simp add: encodeSample_def Let_def split: prod.splits)

lemma encodeLoop_zero:
  assumes "\<forall>fr\<in>set frames. amplitude fr = 0" and "nf \<le> int (length frames)"
  shows "snd (encodeLoop cs frames nf n i (ph, replicate m 0)) = replicate m 0"
  using assms
proof (induction cs frames nf n i "(ph, replicate m (0::real))" arbitrary: ph rule: encodeLoop.induct)
  case (1 cs frames nf n i ph)
  show ?case
  proof (cases "i < n \<and> \<not> int (i div HOP_SIZE cs) \<ge> nf - 1")
    case False
    then show ?thesis by (subst encodeLoop.simps) auto
  next
    case True
    then have idx: "i div HOP_SIZE cs + 1 < length frames" using "1.prems"(2) by linarith
    then have a: "amplitude (frames ! (i div HOP_SIZE cs)) = 0" "amplitude (frames ! (i div HOP_SIZE cs + 1)) = 0"
      using "1.prems"(1) by (simp_all add: nth_mem)
    obtain ph' s where E: "encodeSample cs frames i ph = (ph', s)" by (cases "encodeSample cs frames i ph")
    have s: "s = 0" using encodeSample_zero_amp [OF a, of ph] E by simp
    have upd: "(replicate m (0::real))[i := s] = replicate m 0" unfolding s
      by (metis list_update_id length_replicate nth_replicate list_update_beyond not_le_imp_less)
    have "snd (encodeLoop cs frames nf n (i + 1) (ph', replicate m 0)) = replicate m 0"
      using "1.hyps" [of "(ph', s)" ph' s] True E upd "1.prems" by simp
    then show ?thesis using True E upd by (subst encodeLoop.simps) simp
  qed
qed

lemma encodeSynth_silence: "encodeSynth cs rnd (replicate n 0) = replicate n 0"
  unfolding encodeSynth_def Let_def
  by (simp add: encodeLoop_zero encodeAnalysis_silence length_encodeAnalysis)

lemma demo_numFrames_silence: "numFrames demo_consts (replicate 2048 0) = 4"
  by (simp add: numFrames_def demo_consts_def)

text \<open>
  Claim C4. For an all-zero buffer that passes the frame-count test (with a window of
  at least one sample), \<open>encodeTobirdsong\<close> returns the all-zero buffer: the synthesised
  buffer has peak 0, so the guard \<open>maxVal > 0\<close> fails and the division \<open>0.95 / maxVal\<close>
  is not performed. Every analysed frame has pitch 0; and \<open>extractPitch\<close> returns 0 on
  every non-empty window whose RMS is below 0.01.
\<close>

theorem encode_silence:
  "0 < FFT_SIZE cs \<Longrightarrow> 0 < numFrames cs (replicate n 0) \<Longrightarrow>
     encodeTobirdsong cs rnd (replicate n 0) = Inr (replicate n 0)
   \<and> peakAbs (encodeSynth cs rnd (replicate n 0)) = 0
   \<and> length (encodeAnalysis cs (replicate n 0)) = nat (numFrames cs (replicate n 0))
   \<and> (\<forall>fr\<in>set (encodeAnalysis cs (replicate n 0)). pitch fr = 0)
   \<and> (\<forall>buffer sr. buffer \<noteq> [] \<and> rms buffer < 0.01 \<longrightarrow> extractPitch buffer sr = 0)"
  by (simp add: encodeTobirdsong_def encodeSynth_silence peakAbs_replicate_0 normalize_silent
      length_encodeAnalysis encodeAnalysis_silence silence_gate)

theorem encode_silence_witness:
  "0 < FFT_SIZE demo_consts
   \<and> 0 < numFrames demo_consts (replicate 2048 0)
   \<and> encodeTobirdsong demo_consts (\<lambda>k. 0) (replicate 2048 0) = Inr (replicate 2048 0)
   \<and> length (encodeAnalysis demo_consts (replicate 2048 0)) = 4
   \<and> pitch (encodeAnalysis demo_consts (replicate 2048 0) ! 0) = 0
   \<and> replicate 1024 (0::real) \<noteq> []
   \<and> rms (replicate 1024 0) < 0.01
   \<and> extractPitch (replicate 1024 0) 44100 = 0"
proof -
  have f: "0 < FFT_SIZE demo_consts" by (simp add: demo_consts_def)
  have n: "0 < numFrames demo_consts (replicate 2048 0)" by (simp add: demo_numFrames_silence)
  note t = encode_silence [OF f n, of "\<lambda>k. 0"]
  have r: "replicate 1024 (0::real) \<noteq> [] \<and> rms (replicate 1024 0) < 0.01"
    by (simp add: rms_replicate_0)
  from t have l: "length (encodeAnalysis demo_consts (replicate 2048 0)) = 4"
    by (simp add: demo_numFrames_silence)
  from t have "\<forall>fr\<in>set (encodeAnalysis demo_consts (replicate 2048 0)). pitch fr = 0" by blast
  then have p: "pitch (encodeAnalysis demo_consts (replicate 2048 0) ! 0) = 0"
    using l by (simp add: nth_mem)
  from t r have e: "extractPitch (replicate 1024 0) 44100 = 0" by blast
  show ?thesis using f n t l p r e by blast
qed

section \<open>The error condition\<close>

text \<open>
  Claim C2, as stated, fails: a buffer one sample longer than \<open>FFT_SIZE\<close> is rejected
  too (here \<open>FFT_SIZE = 1024\<close>, \<open>HOP_SIZE = 256\<close> and 1025 samples).
\<close>

theorem too_short_counterexample:
  "FFT_SIZE demo_consts < length (replicate 1025 (0::real))
   \<and> encodeTobirdsong demo_consts (\<lambda>k. 0) (replicate 1025 0) = Inl AudioTooShort
   \<and> decodeFrombirdsong demo_consts (\<lambda>k. 0) (replicate 1025 0) = Inl AudioTooShort"
  by (simp add: encodeTobirdsong_def decodeFrombirdsong_def numFrames_def demo_consts_def)

text \<open>
  Claim C2, amended. With \<open>0 < HOP_SIZE\<close>, each worker raises the "Audio too short" error
  exactly when \<open>length input < FFT_SIZE + HOP_SIZE\<close> (no full frame plus one hop, that
  is \<open>numFrames \<le> 0\<close>); every buffer of at least that length succeeds; it is the only
  error the workers raise, and an error result carries no buffer.
\<close>

theorem too_short_iff:
  "0 < HOP_SIZE cs \<Longrightarrow>
     (encodeTobirdsong cs rnd x = Inl AudioTooShort) = (length x < FFT_SIZE cs + HOP_SIZE cs)
   \<and> (decodeFrombirdsong cs rnd' x = Inl AudioTooShort) = (length x < FFT_SIZE cs + HOP_SIZE cs)
   \<and> (FFT_SIZE cs + HOP_SIZE cs \<le> length x \<longrightarrow>
        (\<exists>y. encodeTobirdsong cs rnd x = Inr y) \<and> (\<exists>y. decodeFrombirdsong cs rnd' x = Inr y))
   \<and> (\<forall>e. encodeTobirdsong cs rnd x = Inl e \<or> decodeFrombirdsong cs rnd' x = Inl e
          \<longrightarrow> e = AudioTooShort)"
proof -
  assume h: "0 < HOP_SIZE cs"
  have only: "\<And>e::error. e = AudioTooShort" by (case_tac e) simp
  show ?thesis
    using numFrames_le_0_iff [OF h, of x] only
    by (auto simp: encodeTobirdsong_def decodeFrombirdsong_def)
qed

theorem too_short_iff_witness:
  "0 < HOP_SIZE demo_consts
   \<and> encodeTobirdsong demo_consts (\<lambda>k. 0) (replicate 1279 0) = Inl AudioTooShort
   \<and> decodeFrombirdsong demo_consts (\<lambda>k. 0) (replicate 1279 0) = Inl AudioTooShort
   \<and> (\<exists>y. encodeTobirdsong demo_consts (\<lambda>k. 0) (replicate 1280 0) = Inr y)
   \<and> (\<exists>y. decodeFrombirdsong demo_consts (\<lambda>k. 0) (replicate 1280 0) = Inr y)"
proof -
  have h: "0 < HOP_SIZE demo_consts" by (simp add: demo_consts_def)
  have c: "FFT_SIZE demo_consts + HOP_SIZE demo_consts = 1280" by (simp add: demo_consts_def)
  show ?thesis
    using h too_short_iff [OF h, of "\<lambda>k. 0" "replicate 1279 0" "\<lambda>k. 0"]
      too_short_iff [OF h, of "\<lambda>k. 0" "replicate 1280 0" "\<lambda>k. 0"]
    unfolding c by simp
qed

section \<open>The decoder's median filter\<close>

lemma upt_0_5: "[0..<5] = [0, 1, 2, 3, 4::nat]"
  by (simp add: upt_rec)

lemma decodeFrameStep_eq:
  "decodeFrameStep cs x f (pitchBuf, frames) =
     (pushShift pitchBuf (rawPitch cs x f),
      frames @ [\<lparr>bandEnergies = recoverBands cs (frameMagnitudes cs x f),
                  pitch = median5 (pushShift pitchBuf (rawPitch cs x f)),
                  amplitude = snd (carrierPitch cs (frameMagnitudes cs x f))\<rparr>])"
  by (simp add: decodeFrameStep_def Let_def rawPitch_def split: prod.splits)

lemma pushShift_recent:
  "pushShift (map (\<lambda>j. if n + j < 5 then 0 else rawPitch cs x (n + j - 5)) [0..<5])
             (rawPitch cs x n)
   = recentPitches cs x n"
  by (simp add: pushShift_def recentPitches_def upt_0_5)

lemma recentPitches_Suc:
  "map (\<lambda>j. if Suc n + j < 5 then 0 else rawPitch cs x (Suc n + j - 5)) [0..<5]
   = recentPitches cs x n"
  by (simp add: recentPitches_def)

lemma fold_decodeFrameStep:
  "fold (decodeFrameStep cs x) [0..<n] ([0, 0, 0, 0, 0], []) =
     (map (\<lambda>j. if n + j < 5 then 0 else rawPitch cs x (n + j - 5)) [0..<5],
      map (\<lambda>f. \<lparr>bandEnergies = recoverBands cs (frameMagnitudes cs x f),
                  pitch = median5 (recentPitches cs x f),
                  amplitude = snd (carrierPitch cs (frameMagnitudes cs x f))\<rparr>) [0..<n])"
proof (induction n)
  case 0
  show ?case by (simp add: upt_0_5)
next
  case (Suc n)
  show ?case
    unfolding upt_Suc_append [OF le0] fold_append comp_def Suc
    by (simp only: fold.simps decodeFrameStep_eq pushShift_recent recentPitches_Suc
          map_append list.map id_apply comp_def)
qed

lemma decodeAnalysis_eq:
  "decodeAnalysis cs x nf =
     map (\<lambda>f. \<lparr>bandEnergies = recoverBands cs (frameMagnitudes cs x f),
                 pitch = median5 (recentPitches cs x f),
                 amplitude = snd (carrierPitch cs (frameMagnitudes cs x f))\<rparr>) [0..<nf]"
  by (simp add: decodeAnalysis_def fold_decodeFrameStep)

lemma length_decodeAnalysis: "length (decodeAnalysis cs x nf) = nf"
  by (simp add: decodeAnalysis_eq)

lemma nth_decodeAnalysis:
  "f < nf \<Longrightarrow> pitch (decodeAnalysis cs x nf ! f) = median5 (recentPitches cs x f)"
  unfolding decodeAnalysis_eq by (subst nth_map) simp_all

lemma nth_recentPitches:
  "j < 5 \<Longrightarrow> recentPitches cs x f ! j = (if f + j < 4 then 0 else rawPitch cs x (f + j - 4))"
  unfolding recentPitches_def by (subst nth_map) simp_all

text \<open>
  The filter on defined estimates. For a frame \<open>f\<close> whose window, the frames
  \<open>f - 4, ..., f\<close>, has only defined refinements, the pitch stored in the frame is the
  third of the five sorted values of \<open>recentPitches\<close>: the raw estimates of these frames,
  with 0 (the seed of the buffer, set at the start of the call) in place of the estimates
  of frames before the first. The hypothesis confines the statement to the frames on
  which the estimates of the model are those of the source.
\<close>

lemma decode_median_defined:
  "f < nf \<Longrightarrow> \<forall>g. f - 4 \<le> g \<and> g \<le> f \<longrightarrow> refinementDefined cs x g \<Longrightarrow>
     length (decodeAnalysis cs x nf) = nf
   \<and> pitch (decodeAnalysis cs x nf ! f) = sort (recentPitches cs x f) ! 2
   \<and> length (recentPitches cs x f) = 5
   \<and> (\<forall>j<5. recentPitches cs x f ! j = (if f + j < 4 then 0 else rawPitch cs x (f + j - 4)))"
  using nth_decodeAnalysis [of f nf cs x] nth_recentPitches [of _ cs x f]
  by (simp add: length_decodeAnalysis median5_def recentPitches_def)

section \<open>A buffer whose synthesised output is not silent\<close>

text \<open>The spectrum of a frame with a single sample that survives the window: every
  magnitude is the absolute value of that windowed sample.\<close>

lemma dftLoop_single:
  assumes skip: "\<forall>n<N. even n \<and> n \<noteq> m \<longrightarrow> \<bar>windowed ! n\<bar> \<le> 1 / 1000000"
      and m: "even m" "m < N" "\<bar>windowed ! m\<bar> > 1 / 1000000"
  shows "even n0 \<Longrightarrow> dftLoop windowed af N n0 (r, i) =
           (if n0 \<le> m then (r + windowed ! m * cos (af * real m), i + windowed ! m * sin (af * real m))
            else (r, i))"
proof (induction "N - n0" arbitrary: n0 r i rule: less_induct)
  case less
  show ?case
  proof (cases "n0 < N")
    case False
    then show ?thesis using m(2) by (simp add: dftLoop.simps [of _ _ _ n0])
  next
    case True
    have ev: "even (n0 + 2)" using less.prems by simp
    have dec: "N - (n0 + 2) < N - n0" using True by simp
    note IH = less.hyps [OF dec ev]
    show ?thesis
    proof (cases "n0 = m")
      case True
      have "\<not> n0 + 2 \<le> m" using True by simp
      then show ?thesis
        using True m IH by (simp add: dftLoop.simps [of _ _ _ m] Let_def)
    next
      case False
      have sk: "\<not> \<bar>windowed ! n0\<bar> > 1 / 1000000"
        using skip True False less.prems by (simp add: not_less)
      have "(n0 + 2 \<le> m) = (n0 \<le> m)"
        using False less.prems m(1) by presburger
      then show ?thesis
        using sk True IH by (simp add: dftLoop.simps [of _ _ _ n0] Let_def)
    qed
  qed
qed

lemma sqrt_cos_sin: "sqrt ((w * cos t) * (w * cos t) + (w * sin t) * (w * sin t)) = \<bar>w\<bar>"
proof -
  have "(w * cos t) * (w * cos t) + (w * sin t) * (w * sin t) = w\<^sup>2 * ((cos t)\<^sup>2 + (sin t)\<^sup>2)"
    by (simp only: power2_eq_square) algebra
  also have "\<dots> = w\<^sup>2" by simp
  finally show ?thesis by simp
qed

lemma hann_centre: "1 / 2 \<le> hann 1024 512" and "hann 1024 512 \<le> 1"
proof -
  have e: "2 * pi * real (512::nat) / (real (1024::nat) - 1) = pi / 1023 + pi"
    by (simp add: field_simps)
  have "0 \<le> cos (pi / 1023)" by (rule cos_ge_zero) (simp_all add: field_simps)
  moreover have "cos (pi / 1023) \<le> 1" by simp
  ultimately show "1 / 2 \<le> hann 1024 512" and "hann 1024 512 \<le> 1"
    unfolding hann_def e cos_periodic_pi by simp_all
qed

lemma length_quietClick: "length quietClick = 1536"
  by (simp add: quietClick_def)

lemma numFrames_quietClick: "numFrames demo_consts quietClick = 2"
  by (simp add: numFrames_def demo_consts_def length_quietClick)

lemma length_frame0: "length frame0 = 1024"
  by (simp add: frame0_def slice_def length_quietClick)

lemma nth_frame0: "n < 1024 \<Longrightarrow> frame0 ! n = (if n = 512 then 1 / 25 else 0)"
  by (simp add: frame0_def slice_def quietClick_def)

lemma windowed_frame0:
  "n < 1024 \<Longrightarrow> windowedFrame 1024 frame0 ! n = (if n = 512 then hann 1024 512 / 25 else 0)"
  by (simp add: windowedFrame_def length_frame0 nth_frame0)

lemma magnitudes_frame0:
  assumes "k < 512"
  shows "computeMagnitudeSpectrum demo_consts frame0 ! k = hann 1024 512 / 25"
proof -
  let ?w = "windowedFrame 1024 frame0"
  have wm: "?w ! 512 = hann 1024 512 / 25" by (simp add: windowed_frame0)
  have big: "\<bar>?w ! 512\<bar> > 1 / 1000000" using hann_centre(1) unfolding wm by simp
  have skip: "\<forall>n<1024. even n \<and> n \<noteq> 512 \<longrightarrow> \<bar>?w ! n\<bar> \<le> 1 / 1000000"
    by (simp add: windowed_frame0)
  have d: "dftLoop ?w af 1024 0 (0, 0) = (?w ! 512 * cos (af * real (512::nat)), ?w ! 512 * sin (af * real (512::nat)))" for af
    using dftLoop_single [OF skip _ _ big, of 0 af 0 0] by simp
  have "computeMagnitudeSpectrum demo_consts frame0 ! k = \<bar>?w ! 512\<bar>"
    using assms unfolding computeMagnitudeSpectrum_def Let_def
    by (simp add: demo_consts_def d sqrt_cos_sin del: of_nat_numeral)
  then show ?thesis using hann_centre(1) unfolding wm by simp
qed

lemma length_magnitudes: "length (computeMagnitudeSpectrum cs samples) = FFT_SIZE cs div 2"
  by (simp add: computeMagnitudeSpectrum_def Let_def)

lemma bandPeakLoop_ge_init: "s \<le> bandPeakLoop mags k e s"
proof (induction "nat (e + 1 - k)" arbitrary: k s rule: less_induct)
  case less
  show ?case
  proof (cases "k \<le> e")
    case False
    then show ?thesis by (simp add: bandPeakLoop.simps [of _ k])
  next
    case True
    then have dec: "nat (e + 1 - (k + 1)) < nat (e + 1 - k)" by simp
    note IH = less.hyps [OF dec]
    show ?thesis
    proof (cases "0 \<le> k \<and> k < int (length mags) \<and> mags ! nat k > s")
      case True
      have "s \<le> mags ! nat k" using True by simp
      also have "\<dots> \<le> bandPeakLoop mags (k + 1) e (mags ! nat k)" by (rule IH)
      finally show ?thesis using True \<open>k \<le> e\<close> by (simp add: bandPeakLoop.simps [of _ k])
    next
      case False
      have "bandPeakLoop mags k e s = bandPeakLoop mags (k + 1) e s"
        using False \<open>k \<le> e\<close> by (subst bandPeakLoop.simps) auto
      then show ?thesis using IH [of s] by simp
    qed
  qed
qed

lemma bandPeakLoop_ge_bin:
  "k \<le> j \<Longrightarrow> j \<le> e \<Longrightarrow> 0 \<le> j \<Longrightarrow> j < int (length mags)
     \<Longrightarrow> mags ! nat j \<le> bandPeakLoop mags k e s"
proof (induction "nat (e + 1 - k)" arbitrary: k s rule: less_induct)
  case less
  have ke: "k \<le> e" using less.prems by simp
  have dec: "nat (e + 1 - (k + 1)) < nat (e + 1 - k)" using ke by simp
  show ?case
  proof (cases "j = k")
    case True
    show ?thesis
    proof (cases "mags ! nat k > s")
      case True
      have "mags ! nat k \<le> bandPeakLoop mags (k + 1) e (mags ! nat k)"
        by (rule bandPeakLoop_ge_init)
      then show ?thesis
        using True \<open>j = k\<close> ke less.prems by (simp add: bandPeakLoop.simps [of _ k])
    next
      case False
      have "mags ! nat k \<le> s" using False by simp
      also have "\<dots> \<le> bandPeakLoop mags (k + 1) e s" by (rule bandPeakLoop_ge_init)
      finally show ?thesis
        using False \<open>j = k\<close> ke by (simp add: bandPeakLoop.simps [of _ k])
    qed
  next
    case False
    then have "k + 1 \<le> j" using less.prems by simp
    note IH = less.hyps [OF dec this less.prems(2,3,4)]
    show ?thesis using ke IH by (simp add: bandPeakLoop.simps [of _ k])
  qed
qed

lemma frame0_eq: "frame0 = (replicate 1024 0)[512 := 1 / 25]"
  by (rule nth_equalityI) (simp_all add: length_frame0 nth_frame0 nth_list_update)

lemma sum_list_replicate_update:
  "sum_list ((replicate n (0::real))[k := a]) = (if k < n then a else 0)"
  by (induction n arbitrary: k) (auto split: nat.splits simp: sum_list_replicate)

lemma sumsq_frame0: "(\<Sum>v\<leftarrow>frame0. v * v) = 1 / 625"
proof -
  have "map (\<lambda>v. v * v) frame0 = (replicate 1024 (0::real))[512 := 1 / 625]"
    unfolding frame0_eq by (simp add: map_update)
  moreover have "sum_list ((replicate 1024 (0::real))[512 := 1 / 625]) = 1 / 625"
    by (simp add: sum_list_replicate_update)
  ultimately show ?thesis by simp
qed

lemma rms_frame0: "rms frame0 < 0.01"
proof -
  have "sqrt (1 / 640000) < 1 / 100"
    by (rule real_less_lsqrt) (simp_all add: power2_eq_square)
  then show ?thesis by (simp add: rms_def foldl_sumsq sumsq_frame0 length_frame0)
qed

lemma amplitude_frame0: "0 < amplitude (analyzeSpeechFrame demo_consts frame0)"
  by (simp add: analyzeSpeechFrame_def Let_def foldl_sumsq sumsq_frame0 length_frame0)

lemma pitch_frame0: "pitch (analyzeSpeechFrame demo_consts frame0) = 0"
  using silence_gate [OF rms_frame0] by (simp add: analyzeSpeechFrame_def Let_def)

lemma length_bandEnergies:
  "length (bandEnergies (analyzeSpeechFrame cs samples)) = NUM_BANDS cs"
  by (simp add: analyzeSpeechFrame_def Let_def length_getMelBands)

lemma bandEnergies_nonneg:
  "b < NUM_BANDS cs \<Longrightarrow> 0 \<le> bandEnergies (analyzeSpeechFrame cs samples) ! b"
  by (simp add: analyzeSpeechFrame_def Let_def length_getMelBands bandPeakLoop_ge_init)

lemma bandEnergy0_frame0:
  "hann 1024 512 / 25 \<le> bandEnergies (analyzeSpeechFrame demo_consts frame0) ! 0"
proof -
  let ?mags = "computeMagnitudeSpectrum demo_consts frame0"
  let ?band = "getMelBands demo_consts ! 0"
  let ?bin = "SAMPLE_RATE demo_consts / real (FFT_SIZE demo_consts)"
  have N: "0 < NUM_BANDS demo_consts" and M: "100 < SPEECH_MAX_FREQ demo_consts"
    by (simp_all add: demo_consts_def)
  have st: "start ?band = 100" using N by (simp add: nth_getMelBands melToHz_hzToMel)
  have w: "0 < melStep demo_consts" using N M by (rule melStep_pos)
  have "melToHz (hzToMel 100) \<le> melToHz (hzToMel 100 + melStep demo_consts)"
    using melToHz_strict_mono [of "hzToMel 100" "hzToMel 100 + melStep demo_consts"] w by simp
  then have en: "100 \<le> endHz ?band" using N by (simp add: nth_getMelBands melToHz_hzToMel)
  have binpos: "0 < ?bin" by (simp add: demo_consts_def)
  have sb: "\<lfloor>start ?band / ?bin\<rfloor> = 2" unfolding st by (simp add: demo_consts_def)
  have "start ?band / ?bin \<le> endHz ?band / ?bin"
    unfolding st using en binpos by (intro divide_right_mono) simp_all
  then have eb: "2 \<le> \<lfloor>endHz ?band / ?bin\<rfloor>" using sb floor_mono by metis
  have len: "(2::int) < int (length ?mags)" by (simp add: length_magnitudes demo_consts_def)
  have "?mags ! nat 2 \<le> bandPeakLoop ?mags \<lfloor>start ?band / ?bin\<rfloor> \<lfloor>endHz ?band / ?bin\<rfloor> 0"
    using eb len unfolding sb by (intro bandPeakLoop_ge_bin) simp_all
  moreover have "?mags ! nat 2 = hann 1024 512 / 25" by (simp add: magnitudes_frame0)
  moreover have "bandEnergies (analyzeSpeechFrame demo_consts frame0) ! 0
      = bandPeakLoop ?mags \<lfloor>start ?band / ?bin\<rfloor> \<lfloor>endHz ?band / ?bin\<rfloor> 0"
    using N by (simp add: analyzeSpeechFrame_def Let_def length_getMelBands)
  ultimately show ?thesis by simp
qed

lemma fold_dataStep:
  "n \<le> length pd \<Longrightarrow>
     fold (dataStep cs fr nx pos) [0..<n] (pd, ds) =
       (map (\<lambda>b. if b < n then pd ! b + dataPhaseStep cs b else pd ! b) [0..<length pd],
        ds + (\<Sum>b<n. sin (pd ! b + dataPhaseStep cs b)
                       * (bandEnergies fr ! b * (1 - pos) + bandEnergies nx ! b * pos)))"
proof (induction n)
  case 0
  show ?case by (simp add: map_nth)
next
  case (Suc n)
  let ?pdn = "map (\<lambda>b. if b < n then pd ! b + dataPhaseStep cs b else pd ! b) [0..<length pd]"
  have n: "n < length pd" using Suc.prems by simp
  have rdn: "?pdn ! n = pd ! n" using n by simp
  have upd: "?pdn[n := pd ! n + dataPhaseStep cs n]
           = map (\<lambda>b. if b < Suc n then pd ! b + dataPhaseStep cs b else pd ! b) [0..<length pd]"
    using n by (intro nth_equalityI) (auto simp: nth_list_update less_Suc_eq)
  have rd: "?pdn[n := pd ! n + dataPhaseStep cs n] ! n = pd ! n + dataPhaseStep cs n"
    using n by simp
  have step: "dataStep cs fr nx pos n (?pdn, d)
      = (?pdn[n := pd ! n + dataPhaseStep cs n],
         d + sin (pd ! n + dataPhaseStep cs n)
             * (bandEnergies fr ! n * (1 - pos) + bandEnergies nx ! n * pos))" for d
    unfolding dataStep_def Let_def prod.case dataPhaseStep_def [symmetric] rdn rd ..
  have "fold (dataStep cs fr nx pos) [0..<Suc n] (pd, ds)
      = dataStep cs fr nx pos n (fold (dataStep cs fr nx pos) [0..<n] (pd, ds))"
    by simp
  also have "\<dots> = dataStep cs fr nx pos n (?pdn, ds + (\<Sum>b<n. sin (pd ! b + dataPhaseStep cs b)
                       * (bandEnergies fr ! b * (1 - pos) + bandEnergies nx ! b * pos)))"
    using Suc.IH n by simp
  also have "\<dots> = (map (\<lambda>b. if b < Suc n then pd ! b + dataPhaseStep cs b else pd ! b) [0..<length pd],
        ds + (\<Sum>b<Suc n. sin (pd ! b + dataPhaseStep cs b)
                       * (bandEnergies fr ! b * (1 - pos) + bandEnergies nx ! b * pos)))"
    unfolding step upd by simp
  finally show ?case .
qed

lemma encodeLoop_keeps:
  "j < i \<Longrightarrow> snd (encodeLoop cs frames nf n i st) ! j = snd st ! j"
proof (induction cs frames nf n i st rule: encodeLoop.induct)
  case (1 cs frames nf n i phases out)
  show ?case
    apply (subst encodeLoop.simps)
    using 1 by (auto split: prod.splits simp: Let_def)
qed

lemma encodeSynth_first:
  assumes "0 < length x" and "1 < numFrames cs x"
  shows "encodeSynth cs rnd x ! 0
         = snd (encodeSample cs (encodeAnalysis cs x) 0
                  (0, map (\<lambda>i. rnd i * 2 * pi) [0..<NUM_BANDS cs]))"
proof -
  obtain ph s where E: "encodeSample cs (encodeAnalysis cs x) 0
                  (0, map (\<lambda>i. rnd i * 2 * pi) [0..<NUM_BANDS cs]) = (ph, s)"
    by (cases "encodeSample cs (encodeAnalysis cs x) 0
                  (0, map (\<lambda>i. rnd i * 2 * pi) [0..<NUM_BANDS cs])")
  have "snd (encodeLoop cs (encodeAnalysis cs x) (numFrames cs x) (length x) (0 + 1)
               (ph, (replicate (length x) 0)[0 := s])) ! 0 = (replicate (length x) 0)[0 := s] ! 0"
    by (subst encodeLoop_keeps) simp_all
  then show ?thesis
    unfolding encodeSynth_def Let_def
    apply (subst encodeLoop.simps)
    using assms E by simp
qed

lemma encodeSample_first_unvoiced:
  assumes "pitch (frames ! 0) \<le> 50" and "length pd = NUM_BANDS cs"
  shows "snd (encodeSample cs frames 0 (pm, pd))
         = ((\<Sum>b<NUM_BANDS cs. sin (pd ! b + dataPhaseStep cs b) * bandEnergies (frames ! 0) ! b)
              * 0.15) * amplitude (frames ! 0)"
proof -
  have f: "fold (dataStep cs (frames ! 0) (frames ! Suc 0) 0) [0..<NUM_BANDS cs] (pd, 0)
        = (map (\<lambda>b. if b < NUM_BANDS cs then pd ! b + dataPhaseStep cs b else pd ! b)
             [0..<length pd],
           0 + (\<Sum>b<NUM_BANDS cs. sin (pd ! b + dataPhaseStep cs b)
                       * (bandEnergies (frames ! 0) ! b * (1 - 0)
                          + bandEnergies (frames ! Suc 0) ! b * 0)))"
    using assms(2) by (intro fold_dataStep) simp
  show ?thesis
    using assms(1) unfolding encodeSample_def Let_def by (simp add: f)
qed

lemma dataPhase_demo:
  assumes "b < 16"
  shows "0 < sin (0 + dataPhaseStep demo_consts b)"
proof -
  let ?c = "2 * (6000 + real b * 200) / 44100"
  have e: "dataPhaseStep demo_consts b = pi * ?c"
    by (simp add: dataPhaseStep_def demo_consts_def)
  have "real b < 16" using assms by simp
  then have c: "0 < ?c" "?c < 1" by simp_all
  have "0 < pi * ?c" using c(1) by simp
  moreover have "pi * ?c < pi * 1" using c(2) by (intro mult_strict_left_mono) simp_all
  ultimately show ?thesis unfolding e by (simp add: sin_gt_zero)
qed

lemma encodeAnalysis_quietClick_0:
  "encodeAnalysis demo_consts quietClick ! 0 = analyzeSpeechFrame demo_consts frame0"
  unfolding encodeAnalysis_def Let_def numFrames_quietClick
  by (simp add: frame0_def demo_consts_def)

lemma encodeSynth_quietClick_first: "0 < encodeSynth demo_consts (\<lambda>k. 0) quietClick ! 0"
proof -
  let ?fa = "analyzeSpeechFrame demo_consts frame0"
  let ?pd = "map (\<lambda>i. (\<lambda>k. 0::real) i * 2 * pi) [0..<NUM_BANDS demo_consts]"
  have N: "NUM_BANDS demo_consts = 16" by (simp add: demo_consts_def)
  have pdr: "?pd = replicate 16 0" by (simp add: N map_replicate_const)
  have term0: "0 < sin (?pd ! 0 + dataPhaseStep demo_consts 0) * bandEnergies ?fa ! 0"
  proof -
    have "0 < hann 1024 512 / 25" using hann_centre(1) by simp
    then have "0 < bandEnergies ?fa ! 0" using bandEnergy0_frame0 by linarith
    then show ?thesis unfolding pdr using dataPhase_demo [of 0] by simp
  qed
  have terms: "\<forall>b\<in>{..<16}. 0 \<le> sin (?pd ! b + dataPhaseStep demo_consts b) * bandEnergies ?fa ! b"
  proof
    fix b :: nat assume "b \<in> {..<16}"
    then have b: "b < 16" by simp
    have "0 \<le> bandEnergies ?fa ! b" using b by (simp add: bandEnergies_nonneg N)
    moreover have "0 < sin (?pd ! b + dataPhaseStep demo_consts b)"
      unfolding pdr using dataPhase_demo [OF b] b by simp
    ultimately show "0 \<le> sin (?pd ! b + dataPhaseStep demo_consts b) * bandEnergies ?fa ! b"
      by simp
  qed
  have sum: "0 < (\<Sum>b<16. sin (?pd ! b + dataPhaseStep demo_consts b) * bandEnergies ?fa ! b)"
    by (rule sum_pos2 [of _ 0]) (use term0 terms in simp_all)
  let ?S = "\<Sum>b<16. sin (?pd ! b + dataPhaseStep demo_consts b) * bandEnergies ?fa ! b"
  have "encodeSynth demo_consts (\<lambda>k. 0) quietClick ! 0
        = snd (encodeSample demo_consts (encodeAnalysis demo_consts quietClick) 0 (0, ?pd))"
    by (rule encodeSynth_first) (simp_all add: length_quietClick numFrames_quietClick)
  also have "\<dots> = ((\<Sum>b<NUM_BANDS demo_consts. sin (?pd ! b + dataPhaseStep demo_consts b)
                         * bandEnergies (encodeAnalysis demo_consts quietClick ! 0) ! b) * 0.15)
                    * amplitude (encodeAnalysis demo_consts quietClick ! 0)"
    by (rule encodeSample_first_unvoiced)
       (simp_all add: encodeAnalysis_quietClick_0 pitch_frame0)
  finally have val: "encodeSynth demo_consts (\<lambda>k. 0) quietClick ! 0 = (?S * 0.15) * amplitude ?fa"
    unfolding encodeAnalysis_quietClick_0 N .
  have "0 < ?S * 0.15" using sum by (rule mult_pos_pos) simp
  then have "0 < (?S * 0.15) * amplitude ?fa" using amplitude_frame0 by (rule mult_pos_pos)
  then show ?thesis by (simp only: val)
qed

lemma encodeSynth_quietClick_nonzero:
  "\<exists>v\<in>set (encodeSynth demo_consts (\<lambda>k. 0) quietClick). v \<noteq> 0"
proof -
  have "encodeSynth demo_consts (\<lambda>k. 0) quietClick ! 0
          \<in> set (encodeSynth demo_consts (\<lambda>k. 0) quietClick)"
    by (rule nth_mem) (simp add: length_encodeSynth length_quietClick)
  then show ?thesis using encodeSynth_quietClick_first by force
qed

text \<open>Bounds on \<open>pi\<close> from Machin's formula, to place 1000 between two multiples of
  \<open>pi\<close>: the first unvoiced sample of the decoder is a multiple of \<open>sin 1000\<close>.\<close>

lemma arctan_three_terms:
  assumes "0 < x" and "x \<le> 1"
  shows "x - x ^ 3 / 3 \<le> arctan x \<and> arctan x \<le> x - x ^ 3 / 3 + x ^ 5 / 5"
proof -
  let ?a = "\<lambda>n. 1 / real (n * 2 + 1) * x ^ (n * 2 + 1)"
  have ax: "\<bar>x\<bar> \<le> 1" using assms by simp
  have pos: "0 < ?a 0" using assms(1) by simp
  have "\<forall>n. (\<Sum>i. (- 1) ^ i * ?a i) \<in> {\<Sum>i<2 * n. (- 1) ^ i * ?a i .. \<Sum>i<2 * n + 1. (- 1) ^ i * ?a i}"
    using summable_Leibniz(2) [OF zeroseq_arctan_series [OF ax] monoseq_arctan_series [OF ax]] pos
    by blast
  then have "(\<Sum>i. (- 1) ^ i * ?a i) \<in> {\<Sum>i<2 * 1. (- 1) ^ i * ?a i .. \<Sum>i<2 * 1 + 1. (- 1) ^ i * ?a i}"
    by blast
  moreover have "arctan x = (\<Sum>i. (- 1) ^ i * ?a i)" by (rule arctan_series [OF ax])
  moreover have "(\<Sum>i<2 * 1. (- 1) ^ i * ?a i) = x - x ^ 3 / 3"
    by (simp add: numeral_eq_Suc)
  moreover have "(\<Sum>i<2 * 1 + 1. (- 1) ^ i * ?a i) = x - x ^ 3 / 3 + x ^ 5 / 5"
    by (simp add: numeral_eq_Suc)
  ultimately show ?thesis by simp
qed

lemma pi_between: "1000 / 319 < pi \<and> pi < 1000 / 318"
proof -
  have a: "74 / 375 \<le> arctan (1 / 5)" "arctan (1 / 5) \<le> 9253 / 46875"
    using arctan_three_terms [of "1 / 5"] by (simp_all add: power_divide)
  have b: "171362 / 40955757 \<le> arctan (1 / 239)" "arctan (1 / 239) \<le> 1 / 239"
    using arctan_three_terms [of "1 / 239"] by (simp_all add: power_divide)
  have m: "pi = 16 * arctan (1 / 5) - 4 * arctan (1 / 239)" using machin by simp
  show ?thesis using a b unfolding m by linarith
qed

lemma sin_1000_pos: "0 < sin (1000::real)"
proof -
  have "sin ((1000 - 318 * pi) + real (318::nat) * pi) = sin (1000 - 318 * pi)"
    unfolding sin_add by (simp only: sin_npi cos_npi) simp
  moreover have "(1000 - 318 * pi) + real (318::nat) * pi = 1000" by simp
  ultimately have "sin 1000 = sin (1000 - 318 * pi)" by simp
  moreover have "0 < sin (1000 - 318 * pi)"
    using pi_between by (intro sin_gt_zero) (simp_all add: field_simps)
  ultimately show ?thesis by simp
qed

lemma decodeLoop_keeps:
  "j < i \<Longrightarrow> snd (decodeLoop cs rnd frames n i st) ! j = snd st ! j"
proof (induction cs rnd frames n i st rule: decodeLoop.induct)
  case (1 cs rnd frames n i s out)
  show ?case
    apply (subst decodeLoop.simps)
    using 1 by (auto split: prod.splits simp: Let_def)
qed

lemma decodeSynth_first:
  assumes "0 < n" and "1 < length frames"
  shows "decodeSynth cs rnd frames n ! 0
         = snd (decodeSample cs rnd frames 0 (replicate 64 0, 0, 0))"
proof -
  obtain st s where E: "decodeSample cs rnd frames 0 (replicate 64 0, 0, 0) = (st, s)"
    by (cases "decodeSample cs rnd frames 0 (replicate 64 0, 0, 0)")
  have "snd (decodeLoop cs rnd frames n (0 + 1) (st, (replicate n 0)[0 := s])) ! 0
          = (replicate n 0)[0 := s] ! 0"
    by (subst decodeLoop_keeps) simp_all
  then show ?thesis
    unfolding decodeSynth_def
    apply (subst decodeLoop.simps)
    using assms E by simp
qed

lemma bandMax_ge_init:
  "(m0::real) \<le> fold (\<lambda>k m. if 0 \<le> k \<and> k < int (length mags) then max m (mags ! nat k) else m) ks m0"
proof (induction ks arbitrary: m0)
  case Nil show ?case by simp
next
  case (Cons k ks)
  let ?m1 = "if 0 \<le> k \<and> k < int (length mags) then max m0 (mags ! nat k) else m0"
  have "m0 \<le> ?m1" by simp
  also have "?m1 \<le> fold (\<lambda>k m. if 0 \<le> k \<and> k < int (length mags) then max m (mags ! nat k) else m) ks ?m1"
    by (rule Cons.IH)
  finally show ?case by simp
qed

lemma bandMax_ge_bin:
  "j \<in> set ks \<Longrightarrow> 0 \<le> j \<Longrightarrow> j < int (length mags) \<Longrightarrow>
     mags ! nat j \<le> fold (\<lambda>k m. if 0 \<le> k \<and> k < int (length mags) then max m (mags ! nat k) else m) ks (m0::real)"
proof (induction ks arbitrary: m0)
  case Nil then show ?case by simp
next
  case (Cons k ks)
  let ?f = "\<lambda>k m. if 0 \<le> k \<and> k < int (length mags) then max m (mags ! nat k) else m"
  show ?case
  proof (cases "j = k")
    case True
    have "mags ! nat j \<le> ?f k m0" using True Cons.prems by simp
    also have "\<dots> \<le> fold ?f ks (?f k m0)" by (rule bandMax_ge_init)
    finally show ?thesis by simp
  next
    case False
    then have "j \<in> set ks" using Cons.prems by simp
    then have "mags ! nat j \<le> fold ?f ks (?f k m0)" using Cons.prems by (intro Cons.IH)
    then show ?thesis by simp
  qed
qed

lemma length_recoverBands: "length (recoverBands cs mags) = NUM_BANDS cs"
  by (simp add: recoverBands_def Let_def)

lemma recoverBands_nonneg: "b < NUM_BANDS cs \<Longrightarrow> 0 \<le> recoverBands cs mags ! b"
proof -
  assume b: "b < NUM_BANDS cs"
  let ?c = "\<lfloor>(BIRD_DATA_START_FREQ cs + real b * BIRD_DATA_STEP cs)
              / (SAMPLE_RATE cs / real (FFT_SIZE cs))\<rfloor>"
  have "0 \<le> fold (\<lambda>k m. if 0 \<le> k \<and> k < int (length mags) then max m (mags ! nat k) else m)
                [?c - 2..?c + 2] 0"
    by (rule bandMax_ge_init)
  moreover have "0 \<le> 1 + real b / real (NUM_BANDS cs) * 2" by simp
  ultimately show ?thesis using b by (simp add: recoverBands_def Let_def)
qed

lemma recoverBands_frame0:
  "0 < recoverBands demo_consts (computeMagnitudeSpectrum demo_consts frame0) ! 0"
proof -
  let ?mags = "computeMagnitudeSpectrum demo_consts frame0"
  let ?f = "\<lambda>k m. if 0 \<le> k \<and> k < int (length ?mags) then max m (?mags ! nat k) else m"
  have c: "\<lfloor>(BIRD_DATA_START_FREQ demo_consts + real (0::nat) * BIRD_DATA_STEP demo_consts)
              / (SAMPLE_RATE demo_consts / real (FFT_SIZE demo_consts))\<rfloor> = 139"
    by (simp add: demo_consts_def)
  have len: "length ?mags = 512" by (simp add: length_magnitudes demo_consts_def)
  have "?mags ! nat 139 \<le> fold ?f [139 - 2..139 + 2] 0"
    by (rule bandMax_ge_bin) (simp_all add: len)
  moreover have "?mags ! nat 139 = hann 1024 512 / 25" by (simp add: magnitudes_frame0)
  ultimately have "0 < fold ?f [139 - 2..139 + 2] 0" using hann_centre(1) by simp
  moreover have "recoverBands demo_consts ?mags ! 0 = fold ?f [139 - 2..139 + 2] 0 * 80 * 1"
    unfolding recoverBands_def Let_def c [simplified] by (simp add: demo_consts_def)
  ultimately show ?thesis by simp
qed

lemma sibilanceLoop_first:
  assumes "\<forall>b<NUM_BANDS cs. 0 \<le> bandEnergies fr ! b"
  shows "\<exists>e\<ge>0. sibilanceLoop cs fr nx 0 0 np noise b s = s + sin np * noise * e"
proof (induction "NUM_BANDS cs - b" arbitrary: b s rule: less_induct)
  case less
  show ?case
  proof (cases "b < NUM_BANDS cs")
    case False
    then have "sibilanceLoop cs fr nx 0 0 np noise b s = s + sin np * noise * 0"
      by (simp add: sibilanceLoop.simps [of _ _ _ _ _ _ _ b])
    then show ?thesis by blast
  next
    case True
    let ?E = "bandEnergies fr ! b"
    have "NUM_BANDS cs - Suc (Suc b) < NUM_BANDS cs - b" using True by simp
    from less [OF this, of "s + sin np * ?E * noise"]
    obtain e where e: "0 \<le> e"
      "sibilanceLoop cs fr nx 0 0 np noise (Suc (Suc b)) (s + sin np * ?E * noise)
         = s + sin np * ?E * noise + sin np * noise * e"
      by blast
    have "sibilanceLoop cs fr nx 0 0 np noise b s = s + sin np * noise * (?E + e)"
      using True e(2) by (simp add: sibilanceLoop.simps [of _ _ _ _ _ _ _ b] Let_def algebra_simps)
    moreover have "0 \<le> ?E + e" using assms True e(1) by simp
    ultimately show ?thesis by blast
  qed
qed

lemma sibilanceLoop_first_band:
  assumes "\<forall>b<NUM_BANDS cs. 0 \<le> bandEnergies fr ! b" and "0 < NUM_BANDS cs"
      and "0 < bandEnergies fr ! 0"
  shows "\<exists>e>0. sibilanceLoop cs fr nx 0 0 np noise 0 0 = sin np * noise * e"
proof -
  let ?E = "bandEnergies fr ! 0"
  from sibilanceLoop_first [OF assms(1), of nx np noise "Suc (Suc 0)" "0 + sin np * ?E * noise"]
  obtain e where e: "0 \<le> e"
      "sibilanceLoop cs fr nx 0 0 np noise (Suc (Suc 0)) (0 + sin np * ?E * noise)
         = 0 + sin np * ?E * noise + sin np * noise * e"
    by blast
  have "sibilanceLoop cs fr nx 0 0 np noise 0 0 = sin np * noise * (?E + e)"
    using assms(2) e(2) by (simp add: sibilanceLoop.simps [of _ _ _ _ _ _ _ 0] Let_def algebra_simps)
  moreover have "0 < ?E + e" using assms(3) e(1) by simp
  ultimately show ?thesis by blast
qed

lemma decodeSample_first_unvoiced:
  assumes "pitch (frames ! 0) \<le> 60"
  shows "snd (decodeSample cs rnd frames 0 (hp, np, calls))
         = sibilanceLoop cs (frames ! 0) (frames ! 1) 0 0 (np + 1000) (rnd calls * 2 - 1) 0 0
           * 0.5 * 0.003"
  using assms unfolding decodeSample_def Let_def by simp

lemma frameMagnitudes_quietClick_0:
  "frameMagnitudes demo_consts quietClick 0 = computeMagnitudeSpectrum demo_consts frame0"
  by (simp add: frameMagnitudes_def Let_def frame0_def demo_consts_def)

lemma decodeAnalysis_quietClick_0:
  "bandEnergies (decodeAnalysis demo_consts quietClick 2 ! 0)
     = recoverBands demo_consts (computeMagnitudeSpectrum demo_consts frame0)
   \<and> pitch (decodeAnalysis demo_consts quietClick 2 ! 0) = 0"
proof -
  have r: "recentPitches demo_consts quietClick 0 = [0, 0, 0, 0, rawPitch demo_consts quietClick 0]"
    by (simp add: recentPitches_def upt_0_5)
  have m: "sort [0, 0, 0, 0, v] ! 2 = (0::real)" for v
    by (simp add: insort_is_Cons)
  have "decodeAnalysis demo_consts quietClick 2 ! 0
        = \<lparr>bandEnergies = recoverBands demo_consts (frameMagnitudes demo_consts quietClick 0),
           pitch = median5 (recentPitches demo_consts quietClick 0),
           amplitude = snd (carrierPitch demo_consts (frameMagnitudes demo_consts quietClick 0))\<rparr>"
    unfolding decodeAnalysis_eq by (subst nth_map) simp_all
  then show ?thesis by (simp add: frameMagnitudes_quietClick_0 median5_def r m)
qed

lemma decodeSynth_quietClick_first:
  "decodeSynth demo_consts (\<lambda>k. 0) (decodeAnalysis demo_consts quietClick 2) 1536 ! 0 < 0"
proof -
  let ?frames = "decodeAnalysis demo_consts quietClick 2"
  have N: "NUM_BANDS demo_consts = 16" by (simp add: demo_consts_def)
  have be: "bandEnergies (?frames ! 0)
     = recoverBands demo_consts (computeMagnitudeSpectrum demo_consts frame0)"
    and p: "pitch (?frames ! 0) = 0"
    using decodeAnalysis_quietClick_0 by simp_all
  have nonneg: "\<forall>b<NUM_BANDS demo_consts. 0 \<le> bandEnergies (?frames ! 0) ! b"
    unfolding be by (simp add: recoverBands_nonneg)
  have pos0: "0 < bandEnergies (?frames ! 0) ! 0"
    unfolding be by (rule recoverBands_frame0)
  have n0: "0 < NUM_BANDS demo_consts" by (simp add: N)
  from sibilanceLoop_first_band [OF nonneg n0 pos0, of "?frames ! 1" "0 + 1000" "0 * 2 - 1"]
  obtain e where e: "0 < e"
    "sibilanceLoop demo_consts (?frames ! 0) (?frames ! 1) 0 0 (0 + 1000) (0 * 2 - 1) 0 0
       = sin (0 + 1000) * (0 * 2 - 1) * e"
    by blast
  have "decodeSynth demo_consts (\<lambda>k. 0) ?frames 1536 ! 0
        = snd (decodeSample demo_consts (\<lambda>k. 0) ?frames 0 (replicate 64 0, 0, 0))"
    by (rule decodeSynth_first) (simp_all add: length_decodeAnalysis)
  also have "\<dots> = sibilanceLoop demo_consts (?frames ! 0) (?frames ! 1) 0 0 (0 + 1000)
                      ((\<lambda>k. 0) (0::nat) * 2 - 1) 0 0 * 0.5 * 0.003"
    by (rule decodeSample_first_unvoiced) (simp add: p)
  also have "\<dots> = sin (0 + 1000) * (0 * 2 - 1) * e * 0.5 * 0.003"
    using e(2) by simp
  finally have val: "decodeSynth demo_consts (\<lambda>k. 0) ?frames 1536 ! 0
                     = - (sin 1000 * e * 0.5 * 0.003)"
    by simp
  have "0 < sin 1000 * e" using sin_1000_pos e(1) by (rule mult_pos_pos)
  then have "0 < sin 1000 * e * 0.5 * 0.003" by simp
  then show ?thesis unfolding val by simp
qed

lemma decodeSynth_quietClick_nonzero:
  "\<exists>v\<in>set (decodeSynth demo_consts (\<lambda>k. 0)
               (decodeAnalysis demo_consts quietClick (nat (numFrames demo_consts quietClick)))
               (length quietClick)). v \<noteq> 0"
proof -
  let ?d = "decodeSynth demo_consts (\<lambda>k. 0) (decodeAnalysis demo_consts quietClick 2) 1536"
  have "?d ! 0 \<in> set ?d" by (rule nth_mem) (simp add: length_decodeSynth)
  then have "\<exists>v\<in>set ?d. v \<noteq> 0" using decodeSynth_quietClick_first by force
  then show ?thesis by (simp add: numFrames_quietClick length_quietClick)
qed

section \<open>Frames with two surviving samples\<close>

text \<open>Bins 13 to 115 are searched under \<open>demo_consts\<close>; a frame has 512 magnitudes; bins
  that do not exceed the running maximum leave the peak search where it is.\<close>

lemma demo_bins:
  "\<lfloor>600 / (SAMPLE_RATE demo_consts / real (FFT_SIZE demo_consts))\<rfloor> = 13"
  "\<lfloor>5000 / (SAMPLE_RATE demo_consts / real (FFT_SIZE demo_consts))\<rfloor> = 116"
  by (simp_all add: demo_consts_def)

lemma length_frameMagnitudes_demo: "length (frameMagnitudes demo_consts x f) = 512"
  by (simp add: frameMagnitudes_def Let_def length_magnitudes demo_consts_def)

lemma frameMagnitudes_demo:
  "frameMagnitudes demo_consts x f
   = computeMagnitudeSpectrum demo_consts (slice x (f * 256) (f * 256 + 1024))"
  by (simp add: frameMagnitudes_def Let_def demo_consts_def)

lemma peakLoop_no_update:
  assumes "\<forall>k. lo \<le> k \<and> k < hi \<and> 0 \<le> k \<and> k < int (length mags) \<longrightarrow> mags ! nat k \<le> m"
  shows "peakLoop mags lo hi (m, p) = (m, p)"
  using assms
proof (induction "nat (hi - lo)" arbitrary: lo rule: less_induct)
  case less
  show ?case
  proof (cases "lo < hi")
    case False
    then show ?thesis by (simp add: peakLoop.simps [of _ lo])
  next
    case True
    have dec: "nat (hi - (lo + 1)) < nat (hi - lo)" using True by simp
    have no: "\<not> (0 \<le> lo \<and> lo < int (length mags) \<and> mags ! nat lo > m)"
      using less.prems True by (auto simp: not_less)
    have "peakLoop mags (lo + 1) hi (m, p) = (m, p)"
      using less.hyps [OF dec] less.prems by simp
    moreover have "peakLoop mags lo hi (m, p) = peakLoop mags (lo + 1) hi (m, p)"
      using True no by (subst peakLoop.simps) auto
    ultimately show ?thesis by simp
  qed
qed

text \<open>The spectrum of a frame in which two samples survive the window.\<close>

lemma dftLoop_two:
  assumes skip: "\<forall>n<N. even n \<and> n \<noteq> a \<and> n \<noteq> b \<longrightarrow> \<bar>windowed ! n\<bar> \<le> 1 / 1000000"
      and a: "even a" "\<bar>windowed ! a\<bar> > 1 / 1000000"
      and b: "even b" "b < N" "\<bar>windowed ! b\<bar> > 1 / 1000000"
      and ab: "a < b"
  shows "even n0 \<Longrightarrow> dftLoop windowed af N n0 (r, i) =
           (if n0 \<le> a
            then (r + windowed ! a * cos (af * real a) + windowed ! b * cos (af * real b),
                  i + windowed ! a * sin (af * real a) + windowed ! b * sin (af * real b))
            else if n0 \<le> b
            then (r + windowed ! b * cos (af * real b), i + windowed ! b * sin (af * real b))
            else (r, i))"
proof (induction "N - n0" arbitrary: n0 r i rule: less_induct)
  case less
  show ?case
  proof (cases "n0 < N")
    case False
    then show ?thesis using b(2) ab by (simp add: dftLoop.simps [of _ _ _ n0])
  next
    case True
    have ev: "even (n0 + 2)" using less.prems by simp
    have dec: "N - (n0 + 2) < N - n0" using True by simp
    note IH = less.hyps [OF dec ev]
    consider "n0 = a" | "n0 = b" | "n0 \<noteq> a" "n0 \<noteq> b" by blast
    then show ?thesis
    proof cases
      case 1
      have "\<not> n0 + 2 \<le> a" "n0 + 2 \<le> b" using 1 ab a(1) b(1) by presburger+
      then show ?thesis
        using 1 a True IH by (simp add: dftLoop.simps [of _ _ _ a] Let_def)
    next
      case 2
      have "\<not> n0 + 2 \<le> a" "\<not> n0 + 2 \<le> b" "\<not> n0 \<le> a" using 2 ab by simp_all
      then show ?thesis
        using 2 b True IH by (simp add: dftLoop.simps [of _ _ _ b] Let_def)
    next
      case 3
      have sk: "\<not> \<bar>windowed ! n0\<bar> > 1 / 1000000"
        using skip True 3 less.prems by (simp add: not_less)
      have "(n0 + 2 \<le> a) = (n0 \<le> a)" "(n0 + 2 \<le> b) = (n0 \<le> b)"
        using 3 less.prems a(1) b(1) by presburger+
      then show ?thesis
        using sk True IH by (simp add: dftLoop.simps [of _ _ _ n0] Let_def)
    qed
  qed
qed

lemma sqrt_two:
  "sqrt ((u * cos A + v * cos B) * (u * cos A + v * cos B)
         + (u * sin A + v * sin B) * (u * sin A + v * sin B))
   = sqrt (u\<^sup>2 + v\<^sup>2 + 2 * u * v * cos (A - B))"
proof -
  have "(u * cos A + v * cos B) * (u * cos A + v * cos B)
         + (u * sin A + v * sin B) * (u * sin A + v * sin B)
        = u\<^sup>2 * ((cos A)\<^sup>2 + (sin A)\<^sup>2) + v\<^sup>2 * ((cos B)\<^sup>2 + (sin B)\<^sup>2)
          + 2 * u * v * (cos A * cos B + sin A * sin B)"
    by (simp only: power2_eq_square) algebra
  also have "\<dots> = u\<^sup>2 + v\<^sup>2 + 2 * u * v * cos (A - B)"
    by (simp add: cos_diff)
  finally show ?thesis by simp
qed

lemma magnitudes_pair:
  assumes w: "\<forall>n<1024. windowedFrame 1024 frame ! n = (if n = a then u else if n = b then v else 0)"
      and ev: "even a" "even b" and ab: "a < b" "b < 1024"
      and big: "1 / 1000000 < \<bar>u\<bar>" "1 / 1000000 < \<bar>v\<bar>"
      and k: "k < 512"
  shows "computeMagnitudeSpectrum demo_consts frame ! k = pairMagnitude u v (b - a) k"
proof -
  let ?w = "windowedFrame 1024 frame"
  have wa: "?w ! a = u" and wb: "?w ! b = v" using w ab by auto
  have skip: "\<forall>n<1024. even n \<and> n \<noteq> a \<and> n \<noteq> b \<longrightarrow> \<bar>?w ! n\<bar> \<le> 1 / 1000000"
    using w by simp
  have d: "dftLoop ?w af 1024 0 (0, 0)
           = (u * cos (af * real a) + v * cos (af * real b),
              u * sin (af * real a) + v * sin (af * real b))" for af
    using dftLoop_two [OF skip ev(1) _ ev(2) ab(2) _ ab(1), of 0 af 0 0] big
    by (simp add: wa wb)
  have body: "(case dftLoop ?w (- 2 * pi * real j / real (1024::nat)) 1024 0 (0, 0) of
                 (r, i_val) \<Rightarrow> sqrt (r * r + i_val * i_val))
              = pairMagnitude u v (b - a) j" for j
  proof -
    have "(- 2 * pi * real j / real (1024::nat)) * real a
            - (- 2 * pi * real j / real (1024::nat)) * real b
          = 2 * pi * real j * real (b - a) / 1024"
      using ab(1) by (simp add: of_nat_diff field_simps)
    then show ?thesis
      unfolding d prod.case sqrt_two pairMagnitude_def by (rule arg_cong)
  qed
  have F: "FFT_SIZE demo_consts = 1024" by (simp add: demo_consts_def)
  have "computeMagnitudeSpectrum demo_consts frame
        = map (\<lambda>j. pairMagnitude u v (b - a) j) [0..<1024 div 2]"
    unfolding computeMagnitudeSpectrum_def Let_def F body ..
  then show ?thesis using k by simp
qed

lemma peakLoop_strict_max:
  assumes "lo \<le> k0" "k0 < hi" "0 \<le> lo" "hi \<le> int (length mags)"
      and "\<forall>k. lo \<le> k \<and> k < hi \<and> k \<noteq> k0 \<longrightarrow> mags ! nat k < mags ! nat k0"
      and "m < mags ! nat k0"
  shows "peakLoop mags lo hi (m, p) = (mags ! nat k0, k0)"
  using assms
proof (induction "nat (hi - lo)" arbitrary: lo m p rule: less_induct)
  case less
  have lt: "lo < hi" using less.prems by simp
  have dec: "nat (hi - (lo + 1)) < nat (hi - lo)" using lt by simp
  have inr: "0 \<le> lo \<and> lo < int (length mags)" using less.prems lt by simp
  show ?case
  proof (cases "lo = k0")
    case True
    have rest: "peakLoop mags (k0 + 1) hi (mags ! nat k0, k0) = (mags ! nat k0, k0)"
    proof (rule peakLoop_no_update, intro allI impI)
      fix k assume "k0 + 1 \<le> k \<and> k < hi \<and> 0 \<le> k \<and> k < int (length mags)"
      then have "lo \<le> k \<and> k < hi \<and> k \<noteq> k0" using True by simp
      then show "mags ! nat k \<le> mags ! nat k0" using less.prems(5) by (simp add: less_imp_le)
    qed
    show ?thesis
      apply (subst peakLoop.simps)
      using True lt inr less.prems(6) rest by simp
  next
    case False
    then have lo: "lo + 1 \<le> k0" "lo < k0" using less.prems(1) by simp_all
    have mx': "\<forall>k. lo + 1 \<le> k \<and> k < hi \<and> k \<noteq> k0 \<longrightarrow> mags ! nat k < mags ! nat k0"
      using less.prems(5) by simp
    have nonneg: "0 \<le> lo + 1" using less.prems(3) by simp
    have at_lo: "mags ! nat lo < mags ! nat k0"
      using less.prems(5) lt False by simp
    note IH = less.hyps [OF dec lo(1) less.prems(2) nonneg less.prems(4) mx']
    show ?thesis
    proof (cases "mags ! nat lo > m")
      case True
      show ?thesis
        apply (subst peakLoop.simps)
        using True lt inr IH [OF at_lo] by simp
    next
      case False
      show ?thesis
        apply (subst peakLoop.simps)
        using False lt IH [OF less.prems(6)] by simp
    qed
  qed
qed

lemma refineBin_bounds:
  assumes "alpha < beta" "gamma < beta"
  shows "alpha - 2 * beta + gamma \<noteq> 0"
    and "k - 1 / 2 \<le> refineBin k alpha beta gamma"
    and "refineBin k alpha beta gamma \<le> k + 1 / 2"
proof -
  let ?D = "alpha - 2 * beta + gamma"
  have D: "?D < 0" using assms by simp
  then show "?D \<noteq> 0" by simp
  define q where "q = (alpha - gamma) / ?D"
  have q1: "q \<le> 1"
    unfolding q_def using D assms by (simp add: divide_le_eq)
  have q2: "- 1 \<le> q"
    unfolding q_def using D assms by (simp add: le_divide_eq)
  have r: "refineBin k alpha beta gamma = k + q / 2"
    by (simp add: refineBin_def q_def)
  show "k - 1 / 2 \<le> refineBin k alpha beta gamma" using q2 unfolding r by simp
  show "refineBin k alpha beta gamma \<le> k + 1 / 2" using q1 unfolding r by simp
qed

lemma carrier_strict_peak:
  assumes len: "length mags = 512" and p: "13 < p" "p < 115"
      and mx: "\<forall>k. 13 \<le> k \<and> k < 116 \<and> k \<noteq> p \<longrightarrow> mags ! k < mags ! p"
      and big: "1 / 20 < mags ! p"
  shows "peakLoop mags 13 116 (0, 0) = (mags ! p, int p)"
    and "mags ! (p - 1) - 2 * mags ! p + mags ! Suc p \<noteq> 0"
    and "(real p - 1 / 2) * (44100 / 1024) / 8 \<le> fst (carrierPitch demo_consts mags)"
    and "fst (carrierPitch demo_consts mags) \<le> (real p + 1 / 2) * (44100 / 1024) / 8"
proof -
  have mx': "\<forall>k. 13 \<le> k \<and> k < 116 \<and> k \<noteq> int p \<longrightarrow> mags ! nat k < mags ! nat (int p)"
  proof (intro allI impI)
    fix k :: int assume k: "13 \<le> k \<and> k < 116 \<and> k \<noteq> int p"
    then have "13 \<le> nat k \<and> nat k < 116 \<and> nat k \<noteq> p" by linarith
    then show "mags ! nat k < mags ! nat (int p)" using mx by simp
  qed
  have pk: "peakLoop mags 13 116 (0, 0) = (mags ! nat (int p), int p)"
    by (rule peakLoop_strict_max [OF _ _ _ _ mx']) (use p len big in simp_all)
  then show pk': "peakLoop mags 13 116 (0, 0) = (mags ! p, int p)" by simp
  have "13 \<le> p - 1 \<and> p - 1 < 116 \<and> p - 1 \<noteq> p" using p by linarith
  then have a: "mags ! (p - 1) < mags ! p" using mx by blast
  have "13 \<le> Suc p \<and> Suc p < 116 \<and> Suc p \<noteq> p" using p by linarith
  then have g: "mags ! Suc p < mags ! p" using mx by blast
  note rb = refineBin_bounds(2,3) [OF a g, of "real p"]
  show "mags ! (p - 1) - 2 * mags ! p + mags ! Suc p \<noteq> 0"
    by (rule refineBin_bounds(1) [OF a g])
  have n: "nat (int p - 1) = p - 1" "nat (int p + 1) = Suc p" by linarith+
  have c: "fst (carrierPitch demo_consts mags)
           = refineBin (real p) (mags ! (p - 1)) (mags ! p) (mags ! Suc p) * (44100 / 1024) / 8"
    unfolding carrierPitch_def Let_def demo_bins pk'
    using p big by (simp add: len n demo_consts_def)
  show "(real p - 1 / 2) * (44100 / 1024) / 8 \<le> fst (carrierPitch demo_consts mags)"
    and "fst (carrierPitch demo_consts mags) \<le> (real p + 1 / 2) * (44100 / 1024) / 8"
    unfolding c using rb by simp_all
qed

lemma hann_inner:
  assumes "86 \<le> n" "n \<le> 937"
  shows "1 / 20 < hann 1024 n"
proof -
  define x where "x = pi * (2 * real n / 1023)"
  have "pi * (1 / 6) \<le> pi * (2 * real n / 1023)"
    by (rule mult_left_mono) (use assms in simp_all)
  then have x1: "pi / 6 \<le> x" by (simp add: x_def)
  have "pi * (2 * real n / 1023) \<le> pi * (11 / 6)"
    by (rule mult_left_mono) (use assms in simp_all)
  then have x2: "x \<le> 11 * pi / 6" by (simp add: x_def)
  have c: "cos x \<le> cos (pi / 6)"
  proof (cases "x \<le> pi")
    case True
    show ?thesis by (rule cos_monotone_0_pi_le) (use x1 True in simp_all)
  next
    case False
    have "cos (2 * pi - x) \<le> cos (pi / 6)"
      by (rule cos_monotone_0_pi_le) (use x2 False in simp_all)
    then show ?thesis by simp
  qed
  have "sqrt 3 < 9 / 5" by (rule real_less_lsqrt) (simp_all add: power2_eq_square)
  then have "cos (pi / 6) < 9 / 10" by (simp add: cos_30)
  then have "cos x < 9 / 10" using c by simp
  moreover have "2 * pi * real n / (real (1024::nat) - 1) = x" by (simp add: x_def)
  ultimately show ?thesis unfolding hann_def by simp
qed

lemma cos_resonant:
  assumes "13 \<le> k" "k < 116" "k \<noteq> 64"
  shows "cos (2 * pi * real k * real (16::nat) / 1024) < 1"
proof -
  let ?x = "2 * pi * real k * real (16::nat) / 1024"
  have "cos ?x \<noteq> 1"
  proof
    assume "cos ?x = 1"
    then obtain n :: int where n: "?x = of_int n * 2 * pi"
      using cos_one_2pi_int [of ?x] by blast
    then have "real k = 64 * of_int n" using pi_gt_zero by (simp add: field_simps)
    then have "of_int (int k) = (of_int (64 * n) :: real)" by simp
    then have "int k = 64 * n" by (simp only: of_int_eq_iff)
    then show False using assms by presburger
  qed
  moreover have "cos ?x \<le> 1" by (rule cos_le_one)
  ultimately show ?thesis by (rule order.not_eq_order_implies_strict)
qed

lemma cos_85: "cos (2 * pi * real (85::nat) * real (6::nat) / 1024) = - cos (pi / 256)"
proof -
  have "2 * pi * real (85::nat) * real (6::nat) / 1024 = pi - pi / 256"
    by (simp add: field_simps)
  then show ?thesis by (simp only: cos_pi_minus)
qed

lemma cos_offset:
  assumes "13 \<le> k" "k < 116" "k \<noteq> 85"
  shows "cos (2 * pi * real (85::nat) * real (6::nat) / 1024)
         < cos (2 * pi * real k * real (6::nat) / 1024)"
proof -
  define s where "s = 6 * real k - 512"
  define t where "t = pi * (\<bar>s\<bar> / 512)"
  have "k \<le> 84 \<or> 86 \<le> k" using assms by linarith
  then have s4: "4 \<le> \<bar>s\<bar>" unfolding s_def by auto
  have s5: "\<bar>s\<bar> \<le> 512" using assms unfolding s_def by (auto simp: abs_le_iff)
  have "2 * pi * real k * real (6::nat) / 1024 = pi + pi * (s / 512)"
    by (simp add: s_def field_simps)
  then have ck: "cos (2 * pi * real k * real (6::nat) / 1024) = - cos (pi * (s / 512))"
    by (simp only: cos_periodic_pi2)
  have "cos (pi * (s / 512)) = cos t"
    unfolding t_def by (cases "0 \<le> s") (simp_all add: abs_if)
  moreover have "cos t < cos (pi / 256)"
  proof (rule cos_monotone_0_pi)
    show "0 \<le> pi / 256" by simp
    have "pi * (1 / 256) < pi * (\<bar>s\<bar> / 512)"
      by (rule mult_strict_left_mono) (use s4 in simp_all)
    then show "pi / 256 < t" by (simp add: t_def)
    have "pi * (\<bar>s\<bar> / 512) \<le> pi * 1"
      by (rule mult_left_mono) (use s5 in simp_all)
    then show "t \<le> pi" by (simp add: t_def)
  qed
  ultimately show ?thesis unfolding ck cos_85 by linarith
qed

lemma pairMagnitude_resonant:
  assumes "0 < u" "0 < v"
  shows "pairMagnitude u v 16 64 = u + v"
    and "13 \<le> k \<Longrightarrow> k < 116 \<Longrightarrow> k \<noteq> 64 \<Longrightarrow> pairMagnitude u v 16 k < pairMagnitude u v 16 64"
proof -
  have "2 * pi * real (64::nat) * real (16::nat) / 1024 = 2 * pi" by simp
  then have "pairMagnitude u v 16 64 = sqrt (u\<^sup>2 + v\<^sup>2 + 2 * u * v)"
    unfolding pairMagnitude_def by simp
  also have "u\<^sup>2 + v\<^sup>2 + 2 * u * v = (u + v)\<^sup>2" by (simp add: power2_eq_square algebra_simps)
  finally show top: "pairMagnitude u v 16 64 = u + v" using assms by simp
  assume k: "13 \<le> k" "k < 116" "k \<noteq> 64"
  have "2 * u * v * cos (2 * pi * real k * real (16::nat) / 1024) < 2 * u * v * 1"
    by (rule mult_strict_left_mono [OF cos_resonant [OF k]]) (use assms in simp)
  then have "u\<^sup>2 + v\<^sup>2 + 2 * u * v * cos (2 * pi * real k * real (16::nat) / 1024) < (u + v)\<^sup>2"
    by (simp add: power2_eq_square algebra_simps)
  then have "pairMagnitude u v 16 k < sqrt ((u + v)\<^sup>2)"
    unfolding pairMagnitude_def by (simp only: real_sqrt_less_iff)
  then show "pairMagnitude u v 16 k < pairMagnitude u v 16 64"
    unfolding top using assms by simp
qed

lemma pairMagnitude_offset:
  assumes "0 < u" "v < 0"
  shows "u \<le> pairMagnitude u v 6 85"
    and "13 \<le> k \<Longrightarrow> k < 116 \<Longrightarrow> k \<noteq> 85 \<Longrightarrow> pairMagnitude u v 6 k < pairMagnitude u v 6 85"
proof -
  have uv: "2 * u * v < 0" using assms by (simp add: mult_pos_neg)
  have "0 \<le> cos (pi / 256)"
    by (rule cos_ge_zero) (simp_all add: field_simps)
  then have "cos (2 * pi * real (85::nat) * real (6::nat) / 1024) \<le> 0"
    unfolding cos_85 by linarith
  then have "0 \<le> 2 * u * v * cos (2 * pi * real (85::nat) * real (6::nat) / 1024)"
    using uv by (simp add: mult_nonpos_nonpos less_imp_le)
  then have "u\<^sup>2 \<le> u\<^sup>2 + v\<^sup>2 + 2 * u * v * cos (2 * pi * real (85::nat) * real (6::nat) / 1024)"
    by simp
  then show "u \<le> pairMagnitude u v 6 85"
    unfolding pairMagnitude_def by (rule real_le_rsqrt)
  assume k: "13 \<le> k" "k < 116" "k \<noteq> 85"
  have "2 * u * v * cos (2 * pi * real k * real (6::nat) / 1024)
        < 2 * u * v * cos (2 * pi * real (85::nat) * real (6::nat) / 1024)"
    by (rule mult_strict_left_mono_neg [OF cos_offset [OF k] uv])
  then show "pairMagnitude u v 6 k < pairMagnitude u v 6 85"
    unfolding pairMagnitude_def by (simp only: real_sqrt_less_iff)
qed


lemma length_twoPairs: "length twoPairs = 2304"
  by (simp add: twoPairs_def)

lemma numFrames_twoPairs: "numFrames demo_consts twoPairs = 5"
  by (simp add: numFrames_def demo_consts_def length_twoPairs)

lemma nth_twoPairs:
  "m < 2304 \<Longrightarrow> twoPairs ! m = (if m = 1158 then - 1 else if m = 1152 \<or> m = 144 \<or> m = 128 then 1 else 0)"
  by (simp add: twoPairs_def nth_list_update)

lemma windowed_twoPairs:
  assumes "f \<le> 4" "n < 1024"
  shows "windowedFrame 1024 (slice twoPairs (f * 256) (f * 256 + 1024)) ! n
         = twoPairs ! (f * 256 + n) * hann 1024 n"
  using assms by (simp add: windowedFrame_def slice_def length_twoPairs)

lemma first_frame_twoPairs:
  assumes "k < 512"
  shows "frameMagnitudes demo_consts twoPairs 0 ! k
         = pairMagnitude (hann 1024 128) (hann 1024 144) 16 k"
proof -
  have w: "\<forall>n<1024. windowedFrame 1024 (slice twoPairs 0 1024) ! n
             = (if n = 128 then hann 1024 128 else if n = 144 then hann 1024 144 else 0)"
  proof (intro allI impI)
    fix n :: nat assume n: "n < 1024"
    have "windowedFrame 1024 (slice twoPairs 0 1024) ! n = twoPairs ! n * hann 1024 n"
      using windowed_twoPairs [of 0 n] n by simp
    then show "windowedFrame 1024 (slice twoPairs 0 1024) ! n
             = (if n = 128 then hann 1024 128 else if n = 144 then hann 1024 144 else 0)"
      using nth_twoPairs [of n] n by simp
  qed
  have u: "1 / 1000000 < \<bar>hann 1024 128\<bar>" using hann_inner [of 128] by simp
  have v: "1 / 1000000 < \<bar>hann 1024 144\<bar>" using hann_inner [of 144] by simp
  have "frameMagnitudes demo_consts twoPairs 0
        = computeMagnitudeSpectrum demo_consts (slice twoPairs 0 1024)"
    by (simp add: frameMagnitudes_demo)
  then show ?thesis
    using magnitudes_pair [OF w _ _ _ _ u v assms] by simp
qed

lemma later_frame_twoPairs:
  assumes f: "1 \<le> f" "f * 256 + a = 1152" and k: "k < 512"
  shows "frameMagnitudes demo_consts twoPairs f ! k
         = pairMagnitude (hann 1024 a) (- hann 1024 (a + 6)) 6 k"
proof -
  have f4: "f \<le> 4" using f by linarith
  have "even a \<longleftrightarrow> even (f * 256 + a)" by simp
  then have ea: "even a" unfolding f(2) by simp
  have "128 \<le> a" "a \<le> 896" using f f4 by linarith+
  note a = ea this
  have w: "\<forall>n<1024. windowedFrame 1024 (slice twoPairs (f * 256) (f * 256 + 1024)) ! n
             = (if n = a then hann 1024 a else if n = a + 6 then - hann 1024 (a + 6) else 0)"
  proof (intro allI impI)
    fix n :: nat assume n: "n < 1024"
    have m: "f * 256 + n < 2304" using f4 n by simp
    have c: "(f * 256 + n = 1152) = (n = a)" "(f * 256 + n = 1158) = (n = a + 6)"
            "f * 256 + n \<noteq> 144" "f * 256 + n \<noteq> 128"
      using f by linarith+
    show "windowedFrame 1024 (slice twoPairs (f * 256) (f * 256 + 1024)) ! n
             = (if n = a then hann 1024 a else if n = a + 6 then - hann 1024 (a + 6) else 0)"
      using c f(2) unfolding windowed_twoPairs [OF f4 n] nth_twoPairs [OF m] by auto
  qed
  have u: "1 / 1000000 < \<bar>hann 1024 a\<bar>" using hann_inner [of a] a by simp
  have v: "1 / 1000000 < \<bar>- hann 1024 (a + 6)\<bar>" using hann_inner [of "a + 6"] a by simp
  have e: "even (a + 6)" "a < a + 6" "a + 6 < 1024" using a by simp_all
  show ?thesis
    unfolding frameMagnitudes_demo
    using magnitudes_pair [OF w a(1) e u v k] by simp
qed

lemma defined_strict_peak:
  assumes p: "13 < p" "p < 115"
      and mx: "\<forall>k. 13 \<le> k \<and> k < 116 \<and> k \<noteq> p \<longrightarrow>
                 frameMagnitudes demo_consts x f ! k < frameMagnitudes demo_consts x f ! p"
      and big: "1 / 20 < frameMagnitudes demo_consts x f ! p"
  shows "refinementDefined demo_consts x f"
    and "(real p - 1 / 2) * (44100 / 1024) / 8 \<le> rawPitch demo_consts x f"
    and "rawPitch demo_consts x f \<le> (real p + 1 / 2) * (44100 / 1024) / 8"
proof -
  note c = carrier_strict_peak [OF length_frameMagnitudes_demo p mx big]
  have n: "nat (int p - 1) = p - 1" "nat (int p + 1) = Suc p" by linarith+
  show "refinementDefined demo_consts x f"
    unfolding refinementDefined_def Let_def demo_bins c(1) prod.case
    using c(2) by (simp add: n)
  show "(real p - 1 / 2) * (44100 / 1024) / 8 \<le> rawPitch demo_consts x f"
    and "rawPitch demo_consts x f \<le> (real p + 1 / 2) * (44100 / 1024) / 8"
    unfolding rawPitch_def by (rule c(3), rule c(4))
qed

lemma first_estimate_twoPairs:
  shows "refinementDefined demo_consts twoPairs 0"
    and "127 * (44100 / 1024) / 16 \<le> rawPitch demo_consts twoPairs 0"
    and "rawPitch demo_consts twoPairs 0 \<le> 129 * (44100 / 1024) / 16"
proof -
  let ?u = "hann 1024 128" and ?v = "hann 1024 144"
  have u: "1 / 20 < ?u" and v: "1 / 20 < ?v" by (rule hann_inner; simp)+
  then have pos: "0 < ?u" "0 < ?v" by simp_all
  have mx: "\<forall>k. 13 \<le> k \<and> k < 116 \<and> k \<noteq> 64 \<longrightarrow>
              frameMagnitudes demo_consts twoPairs 0 ! k < frameMagnitudes demo_consts twoPairs 0 ! 64"
    using pairMagnitude_resonant(2) [OF pos] by (simp add: first_frame_twoPairs)
  have big: "1 / 20 < frameMagnitudes demo_consts twoPairs 0 ! 64"
    using u v by (simp add: first_frame_twoPairs pairMagnitude_resonant(1) [OF pos])
  note d = defined_strict_peak [OF _ _ mx big]
  show "refinementDefined demo_consts twoPairs 0" by (rule d(1)) simp_all
  show "127 * (44100 / 1024) / 16 \<le> rawPitch demo_consts twoPairs 0"
    using d(2) by simp
  show "rawPitch demo_consts twoPairs 0 \<le> 129 * (44100 / 1024) / 16"
    using d(3) by simp
qed

lemma later_estimate_twoPairs:
  assumes f: "1 \<le> f" "f \<le> 4"
  shows "refinementDefined demo_consts twoPairs f"
    and "169 * (44100 / 1024) / 16 \<le> rawPitch demo_consts twoPairs f"
    and "rawPitch demo_consts twoPairs f \<le> 171 * (44100 / 1024) / 16"
proof -
  define a where "a = 1152 - f * 256"
  have fa: "f * 256 + a = 1152" using f by (simp add: a_def)
  have a: "128 \<le> a" "a \<le> 896" using f fa by linarith+
  let ?u = "hann 1024 a" and ?v = "- hann 1024 (a + 6)"
  have u: "1 / 20 < ?u" by (rule hann_inner) (use a in simp_all)
  have "1 / 20 < hann 1024 (a + 6)" by (rule hann_inner) (use a in simp_all)
  then have v: "?v < 0" by simp
  have pos: "0 < ?u" using u by simp
  have mags: "k < 512 \<Longrightarrow> frameMagnitudes demo_consts twoPairs f ! k = pairMagnitude ?u ?v 6 k" for k
    by (rule later_frame_twoPairs [OF f(1) fa])
  have mx: "\<forall>k. 13 \<le> k \<and> k < 116 \<and> k \<noteq> 85 \<longrightarrow>
              frameMagnitudes demo_consts twoPairs f ! k < frameMagnitudes demo_consts twoPairs f ! 85"
    using pairMagnitude_offset(2) [OF pos v] by (simp add: mags)
  have big: "1 / 20 < frameMagnitudes demo_consts twoPairs f ! 85"
    using u pairMagnitude_offset(1) [OF pos v] by (simp add: mags)
  note d = defined_strict_peak [OF _ _ mx big]
  show "refinementDefined demo_consts twoPairs f" by (rule d(1)) simp_all
  show "169 * (44100 / 1024) / 16 \<le> rawPitch demo_consts twoPairs f"
    using d(2) by simp
  show "rawPitch demo_consts twoPairs f \<le> 171 * (44100 / 1024) / 16"
    using d(3) by simp
qed

lemma median_above_least:
  fixes a :: real
  assumes "a < b1" "a < b2" "a < b3" "a < b4"
  shows "a < sort [a, b1, b2, b3, b4] ! 2"
proof -
  let ?ys = "sort [b1, b2, b3, b4]"
  have "\<forall>x\<in>set ?ys. a \<le> x" using assms by (simp del: sort_key_simps)
  then have "insort a ?ys = a # ?ys" by (rule insort_is_Cons)
  then have "sort [a, b1, b2, b3, b4] = a # ?ys" by (simp only: sort_key_simps)
  then have "sort [a, b1, b2, b3, b4] ! 2 = ?ys ! 1" by (simp del: sort_key_simps)
  moreover have "?ys ! 1 \<in> set ?ys" by (rule nth_mem) (simp del: sort_key_simps)
  then have "?ys ! 1 \<in> {b1, b2, b3, b4}" by (simp del: sort_key_simps)
  ultimately show ?thesis using assms by auto
qed

text \<open>
  The filter on \<open>twoPairs\<close>. The five frames have defined refinements; frame 0 peaks at
  bin 64 and frames 1 to 4 at bin 85, so the five estimates are positive and that of
  frame 0 is strictly the smallest; the pitch stored in frame 4 is the third of the five
  sorted estimates, above the smallest.
\<close>

lemma decode_median_defined_example:
  "numFrames demo_consts twoPairs = 5
   \<and> refinementDefined demo_consts twoPairs 0
   \<and> refinementDefined demo_consts twoPairs 1
   \<and> refinementDefined demo_consts twoPairs 2
   \<and> refinementDefined demo_consts twoPairs 3
   \<and> refinementDefined demo_consts twoPairs 4
   \<and> pitch (decodeAnalysis demo_consts twoPairs 5 ! 4)
       = sort [rawPitch demo_consts twoPairs 0, rawPitch demo_consts twoPairs 1,
               rawPitch demo_consts twoPairs 2, rawPitch demo_consts twoPairs 3,
               rawPitch demo_consts twoPairs 4] ! 2
   \<and> 0 < rawPitch demo_consts twoPairs 0
   \<and> rawPitch demo_consts twoPairs 0 < rawPitch demo_consts twoPairs 1
   \<and> rawPitch demo_consts twoPairs 0 < rawPitch demo_consts twoPairs 2
   \<and> rawPitch demo_consts twoPairs 0 < rawPitch demo_consts twoPairs 3
   \<and> rawPitch demo_consts twoPairs 0 < rawPitch demo_consts twoPairs 4
   \<and> rawPitch demo_consts twoPairs 0 < pitch (decodeAnalysis demo_consts twoPairs 5 ! 4)"
proof -
  note r0 = first_estimate_twoPairs
  have d: "refinementDefined demo_consts twoPairs g" if "g \<le> 4" for g
  proof (cases "g = 0")
    case True
    then show ?thesis using r0(1) by simp
  next
    case False
    then show ?thesis using later_estimate_twoPairs(1) [of g] that by simp
  qed
  have lt: "rawPitch demo_consts twoPairs 0 < rawPitch demo_consts twoPairs g"
    if "1 \<le> g" "g \<le> 4" for g
    using r0(3) later_estimate_twoPairs(2) [OF that] by simp
  have w: "recentPitches demo_consts twoPairs 4
           = [rawPitch demo_consts twoPairs 0, rawPitch demo_consts twoPairs 1,
              rawPitch demo_consts twoPairs 2, rawPitch demo_consts twoPairs 3,
              rawPitch demo_consts twoPairs 4]"
    by (simp add: recentPitches_def upt_0_5)
  have "\<forall>g. 4 - 4 \<le> g \<and> g \<le> 4 \<longrightarrow> refinementDefined demo_consts twoPairs g"
    using d by simp
  from decode_median_defined [of 4 5 demo_consts twoPairs, OF _ this]
  have m: "pitch (decodeAnalysis demo_consts twoPairs 5 ! 4)
           = sort (recentPitches demo_consts twoPairs 4) ! 2"
    by simp
  have l1: "rawPitch demo_consts twoPairs 0 < rawPitch demo_consts twoPairs 1"
    and l2: "rawPitch demo_consts twoPairs 0 < rawPitch demo_consts twoPairs 2"
    and l3: "rawPitch demo_consts twoPairs 0 < rawPitch demo_consts twoPairs 3"
    and l4: "rawPitch demo_consts twoPairs 0 < rawPitch demo_consts twoPairs 4"
    by (rule lt; simp)+
  have p0: "0 < rawPitch demo_consts twoPairs 0" using r0(2) by simp
  have d0: "refinementDefined demo_consts twoPairs 0"
    and d1: "refinementDefined demo_consts twoPairs 1"
    and d2: "refinementDefined demo_consts twoPairs 2"
    and d3: "refinementDefined demo_consts twoPairs 3"
    and d4: "refinementDefined demo_consts twoPairs 4"
    by (rule d; simp)+
  show ?thesis
    unfolding m w
    using numFrames_twoPairs d0 d1 d2 d3 d4 p0 l1 l2 l3 l4 median_above_least [OF l1 l2 l3 l4]
    by (intro conjI) (assumption | rule refl)+
qed

section \<open>An undefined estimate in the smoothing buffer\<close>

text \<open>A frame that is silent after windowing has an all-zero spectrum and the raw
  estimate 0; the first frame of \<open>loudClick\<close> has a flat spectrum.\<close>

lemma dftLoop_skip:
  assumes "\<forall>n<N. \<bar>windowed ! n\<bar> \<le> 1 / 1000000"
  shows "dftLoop windowed af N n0 (r, i) = (r, i)"
proof (induction "N - n0" arbitrary: n0 rule: less_induct)
  case less
  show ?case
  proof (cases "n0 < N")
    case False
    then show ?thesis by (simp add: dftLoop.simps [of _ _ _ n0])
  next
    case True
    have dec: "N - (n0 + 2) < N - n0" using True by simp
    have sk: "\<not> \<bar>windowed ! n0\<bar> > 1 / 1000000" using assms True by (simp add: not_less)
    show ?thesis
      using sk True less.hyps [OF dec] by (simp add: dftLoop.simps [of _ _ _ n0] Let_def)
  qed
qed

lemma magnitudes_silent_frame:
  "computeMagnitudeSpectrum cs (replicate n 0) = replicate (FFT_SIZE cs div 2) 0"
proof -
  have w: "\<forall>i<FFT_SIZE cs. \<bar>windowedFrame (FFT_SIZE cs) (replicate n 0) ! i\<bar> \<le> 1 / 1000000"
    by (simp add: windowedFrame_def)
  show ?thesis
    unfolding computeMagnitudeSpectrum_def Let_def
    by (simp add: dftLoop_skip [OF w] map_replicate_const)
qed

lemma carrierPitch_silent: "carrierPitch cs (replicate n 0) = (0, 0)"
proof -
  have "peakLoop (replicate n 0) lo hi (0, 0) = (0, 0)" for lo hi
  proof (rule peakLoop_no_update, intro allI impI)
    fix k :: int assume "lo \<le> k \<and> k < hi \<and> 0 \<le> k \<and> k < int (length (replicate n (0::real)))"
    then have "0 \<le> k" and "k < int n" by simp_all
    then have "nat k < n" by linarith
    then show "replicate n (0::real) ! nat k \<le> 0" by simp
  qed
  then show ?thesis by (simp add: carrierPitch_def Let_def)
qed

lemma hann_200: "1 / 4 \<le> hann 1024 200"
proof -
  have e: "2 * pi * real (200::nat) / (real (1024::nat) - 1) = 400 * pi / 1023"
    by simp
  have "cos (400 * pi / 1023) \<le> cos (pi / 3)"
    by (rule cos_monotone_0_pi_le) (simp_all add: field_simps)
  then have "cos (400 * pi / 1023) \<le> 1 / 2" by (simp add: cos_60)
  then show ?thesis unfolding hann_def e by simp
qed

lemma length_loudClick: "length loudClick = 1792"
  by (simp add: loudClick_def)

lemma numFrames_loudClick: "numFrames demo_consts loudClick = 3"
  by (simp add: numFrames_def demo_consts_def length_loudClick)

lemma loudClick_later_frames:
  assumes "f = 1 \<or> f = 2"
  shows "slice loudClick (f * 256) (f * 256 + 1024) = replicate 1024 0"
proof (rule nth_equalityI)
  show "length (slice loudClick (f * 256) (f * 256 + 1024)) = length (replicate 1024 (0::real))"
    using assms by (auto simp: slice_def length_loudClick)
next
  fix i assume "i < length (slice loudClick (f * 256) (f * 256 + 1024))"
  then have i: "i < 1024" by (simp add: slice_def)
  then show "slice loudClick (f * 256) (f * 256 + 1024) ! i = replicate 1024 0 ! i"
    using assms by (auto simp: slice_def loudClick_def)
qed

lemma rawPitch_loudClick_later:
  assumes "f = 1 \<or> f = 2"
  shows "rawPitch demo_consts loudClick f = 0"
proof -
  have "frameMagnitudes demo_consts loudClick f = replicate 512 0"
    using loudClick_later_frames [OF assms] magnitudes_silent_frame [of demo_consts 1024]
    by (simp add: frameMagnitudes_def Let_def demo_consts_def)
  then show ?thesis by (simp add: rawPitch_def carrierPitch_silent)
qed

lemma windowed_loudClick:
  "n < 1024 \<Longrightarrow> windowedFrame 1024 (slice loudClick 0 1024) ! n
                  = (if n = 200 then hann 1024 200 else 0)"
  by (simp add: windowedFrame_def slice_def loudClick_def)

lemma magnitudes_loudClick_0:
  assumes "k < 512"
  shows "frameMagnitudes demo_consts loudClick 0 ! k = hann 1024 200"
proof -
  let ?w = "windowedFrame 1024 (slice loudClick 0 1024)"
  have wm: "?w ! 200 = hann 1024 200" by (simp add: windowed_loudClick)
  have big: "\<bar>?w ! 200\<bar> > 1 / 1000000" using hann_200 unfolding wm by simp
  have skip: "\<forall>n<1024. even n \<and> n \<noteq> 200 \<longrightarrow> \<bar>?w ! n\<bar> \<le> 1 / 1000000"
    by (simp add: windowed_loudClick)
  have d: "dftLoop ?w af 1024 0 (0, 0)
           = (?w ! 200 * cos (af * real (200::nat)), ?w ! 200 * sin (af * real (200::nat)))" for af
    using dftLoop_single [OF skip _ _ big, of 0 af 0 0] by simp
  have "frameMagnitudes demo_consts loudClick 0 ! k = \<bar>?w ! 200\<bar>"
    using assms unfolding frameMagnitudes_def computeMagnitudeSpectrum_def Let_def
    by (simp add: demo_consts_def d sqrt_cos_sin del: of_nat_numeral)
  then show ?thesis using hann_200 unfolding wm by simp
qed

lemma peakLoop_loudClick_0:
  "peakLoop (frameMagnitudes demo_consts loudClick 0) 13 116 (0, 0) = (hann 1024 200, 13)"
proof -
  let ?m = "frameMagnitudes demo_consts loudClick 0"
  have m13: "?m ! nat 13 = hann 1024 200" by (simp add: magnitudes_loudClick_0)
  have pos: "0 < hann 1024 200" using hann_200 by simp
  have rest: "peakLoop ?m (13 + 1) 116 (hann 1024 200, 13) = (hann 1024 200, 13)"
  proof (rule peakLoop_no_update, intro allI impI)
    fix k :: int assume k: "13 + 1 \<le> k \<and> k < 116 \<and> 0 \<le> k \<and> k < int (length ?m)"
    then have "0 \<le> k" and "k < 512" by (simp_all add: length_frameMagnitudes_demo)
    then have "nat k < 512" by linarith
    then show "?m ! nat k \<le> hann 1024 200" by (simp add: magnitudes_loudClick_0)
  qed
  show ?thesis
    apply (subst peakLoop.simps)
    using m13 pos rest by (simp add: length_frameMagnitudes_demo)
qed

lemma median_of_four_zeros: "sort [0, 0, r, 0, 0] ! 2 = (0::real)"
  by (cases "r \<le> 0") (auto simp: insort_is_Cons)

text \<open>
  Claim C8 (for every frame the emitted pitch is the median, the third of the five sorted
  values, of the five most recent raw estimates, the buffer being seeded with five
  zeros) fails in the source on \<open>loudClick\<close> under \<open>demo_consts\<close>. The buffer has three
  frames. In frame 0 one sample survives the window, so all magnitudes are equal, to
  \<open>hann 1024 200 > 0.05\<close>; the peak search returns bin 13, the first one searched, which
  is interior; the interpolation is evaluated with \<open>alpha = beta = gamma\<close>, where
  \<open>alpha - gamma\<close> and \<open>alpha - 2 * beta + gamma\<close> are both 0: the source computes
  \<open>0.5 * 0 / 0\<close>, which is NaN, and the raw estimate of frame 0 is NaN. Frames 1 and 2
  are silent and their estimates are 0. At frame 2 the five most recent estimates are
  those of \<open>recentPitches\<close>, \<open>[0, 0, r, 0, 0]\<close> with \<open>r\<close> the estimate of frame 0. Whatever
  value \<open>r\<close> is given, the third of the five sorted values is 0; the source, whose
  comparator returns 0 or NaN on every pair of this buffer, leaves the buffer as it is and
  emits \<open>sorted[2]\<close>, the NaN. The theorem states each of these facts but the last, which
  is about a value the model does not represent.
\<close>

theorem decode_median_failing_input:
  "numFrames demo_consts loudClick = 3
   \<and> peakLoop (frameMagnitudes demo_consts loudClick 0)
        \<lfloor>600 / (SAMPLE_RATE demo_consts / real (FFT_SIZE demo_consts))\<rfloor>
        \<lfloor>5000 / (SAMPLE_RATE demo_consts / real (FFT_SIZE demo_consts))\<rfloor> (0, 0)
      = (hann 1024 200, 13)
   \<and> 0.05 < hann 1024 200
   \<and> (13::int) < int (length (frameMagnitudes demo_consts loudClick 0)) - 1
   \<and> frameMagnitudes demo_consts loudClick 0 ! 12
       - 2 * frameMagnitudes demo_consts loudClick 0 ! 13
       + frameMagnitudes demo_consts loudClick 0 ! 14 = 0
   \<and> frameMagnitudes demo_consts loudClick 0 ! 12
       - frameMagnitudes demo_consts loudClick 0 ! 14 = 0
   \<and> rawPitch demo_consts loudClick 1 = 0
   \<and> rawPitch demo_consts loudClick 2 = 0
   \<and> recentPitches demo_consts loudClick 2 = [0, 0, rawPitch demo_consts loudClick 0, 0, 0]
   \<and> (\<forall>r. sort [0, 0, r, 0, 0] ! 2 = (0::real))"
proof -
  have b: "\<lfloor>600 / (SAMPLE_RATE demo_consts / real (FFT_SIZE demo_consts))\<rfloor> = 13"
          "\<lfloor>5000 / (SAMPLE_RATE demo_consts / real (FFT_SIZE demo_consts))\<rfloor> = 116"
    by (simp_all add: demo_consts_def)
  have p: "peakLoop (frameMagnitudes demo_consts loudClick 0)
        \<lfloor>600 / (SAMPLE_RATE demo_consts / real (FFT_SIZE demo_consts))\<rfloor>
        \<lfloor>5000 / (SAMPLE_RATE demo_consts / real (FFT_SIZE demo_consts))\<rfloor> (0, 0)
      = (hann 1024 200, 13)"
    unfolding b by (rule peakLoop_loudClick_0)
  have h: "0.05 < hann 1024 200" using hann_200 by simp
  have l: "(13::int) < int (length (frameMagnitudes demo_consts loudClick 0)) - 1"
    by (simp add: length_frameMagnitudes_demo)
  have flat: "frameMagnitudes demo_consts loudClick 0 ! 12 = hann 1024 200"
             "frameMagnitudes demo_consts loudClick 0 ! 13 = hann 1024 200"
             "frameMagnitudes demo_consts loudClick 0 ! 14 = hann 1024 200"
    by (simp_all add: magnitudes_loudClick_0)
  have r1: "rawPitch demo_consts loudClick 1 = 0"
    by (rule rawPitch_loudClick_later) simp
  have r2: "rawPitch demo_consts loudClick 2 = 0"
    by (rule rawPitch_loudClick_later) simp
  have w: "recentPitches demo_consts loudClick 2 = [0, 0, rawPitch demo_consts loudClick 0, 0, 0]"
    using r1 r2 by (simp add: recentPitches_def upt_0_5)
  show ?thesis
    using numFrames_loudClick p h l r1 r2 w median_of_four_zeros unfolding flat by simp
qed

section \<open>Normalised peaks\<close>

lemma encodeSynth_one_frame:
  "numFrames cs x = 1 \<Longrightarrow> encodeSynth cs rnd x = replicate (length x) 0"
  unfolding encodeSynth_def Let_def by (subst encodeLoop.simps) simp

lemma decodeSynth_one_frame:
  "length frames = 1 \<Longrightarrow> decodeSynth cs rnd frames n = replicate n 0"
  unfolding decodeSynth_def by (subst decodeLoop.simps) simp

lemma demo_numFrames_1280: "numFrames demo_consts (replicate 1280 v) = 1"
  by (simp add: numFrames_def demo_consts_def)

text \<open>
  Claim C3, as stated, fails: a constant buffer of 1280 samples of value 1/2 is not
  silent and passes the frame-count test (one frame), yet both workers return the
  all-zero buffer, whose peak is 0: with one frame the synthesis loop breaks at its first
  iteration.
\<close>

theorem normalized_peak_counterexample:
  "encodeTobirdsong demo_consts (\<lambda>k. 0) (replicate 1280 (1 / 2)) = Inr (replicate 1280 0)
   \<and> decodeFrombirdsong demo_consts (\<lambda>k. 0) (replicate 1280 (1 / 2)) = Inr (replicate 1280 0)"
  by (simp add: encodeTobirdsong_def decodeFrombirdsong_def decodeResynth_def demo_numFrames_1280
      encodeSynth_one_frame decodeSynth_one_frame length_decodeAnalysis normalize_silent
      peakAbs_replicate_0)

text \<open>
  Claim C3, amended. Whenever the buffer synthesised by \<open>encodeTobirdsong\<close> (before
  normalisation) has a nonzero sample, the returned buffer has peak absolute value
  exactly 0.95 (in exact arithmetic): no sample exceeds it and one attains it; likewise
  0.85 for \<open>decodeFrombirdsong\<close>. When the synthesised buffer is all-zero, its peak is 0,
  the normalisation is skipped and the returned buffer is all-zero.
\<close>

theorem normalized_peak:
  "(encodeTobirdsong cs rnd x = Inr y \<longrightarrow>
      ((\<exists>v\<in>set (encodeSynth cs rnd x). v \<noteq> 0) \<longrightarrow>
          peakAbs y = 0.95 \<and> (\<forall>v\<in>set y. \<bar>v\<bar> \<le> 0.95) \<and> (\<exists>v\<in>set y. \<bar>v\<bar> = 0.95))
    \<and> ((\<forall>v\<in>set (encodeSynth cs rnd x). v = 0) \<longrightarrow>
          peakAbs (encodeSynth cs rnd x) = 0 \<and> y = replicate (length x) 0))
   \<and> (decodeFrombirdsong cs rnd' x = Inr y' \<longrightarrow>
      ((\<exists>v\<in>set (decodeSynth cs rnd' (decodeAnalysis cs x (nat (numFrames cs x))) (length x)).
           v \<noteq> 0) \<longrightarrow>
          peakAbs y' = 0.85 \<and> (\<forall>v\<in>set y'. \<bar>v\<bar> \<le> 0.85) \<and> (\<exists>v\<in>set y'. \<bar>v\<bar> = 0.85))
    \<and> ((\<forall>v\<in>set (decodeSynth cs rnd' (decodeAnalysis cs x (nat (numFrames cs x))) (length x)).
           v = 0) \<longrightarrow>
          peakAbs (decodeSynth cs rnd' (decodeAnalysis cs x (nat (numFrames cs x))) (length x)) = 0
          \<and> y' = replicate (length x) 0))"
proof -
  have gen: "\<And>t xs. 0 \<le> t \<Longrightarrow>
      ((\<exists>v\<in>set xs. v \<noteq> 0) \<longrightarrow>
          peakAbs (normalize t xs) = t \<and> (\<forall>v\<in>set (normalize t xs). \<bar>v\<bar> \<le> t)
          \<and> (\<exists>v\<in>set (normalize t xs). \<bar>v\<bar> = t))
    \<and> ((\<forall>v\<in>set xs. v = 0) \<longrightarrow> peakAbs xs = 0 \<and> normalize t xs = replicate (length xs) 0)"
  proof -
    fix t :: real and xs :: "real list"
    assume t: "0 \<le> t"
    have a: "(\<exists>v\<in>set xs. v \<noteq> 0) \<longrightarrow>
          peakAbs (normalize t xs) = t \<and> (\<forall>v\<in>set (normalize t xs). \<bar>v\<bar> \<le> t)
          \<and> (\<exists>v\<in>set (normalize t xs). \<bar>v\<bar> = t)"
      using normalize_peak [of xs t] peakAbs_normalize [of xs t] t by (simp add: peakAbs_pos_iff)
    have b: "(\<forall>v\<in>set xs. v = 0) \<longrightarrow> peakAbs xs = 0 \<and> normalize t xs = replicate (length xs) 0"
    proof
      assume z: "\<forall>v\<in>set xs. v = 0"
      then have "\<not> 0 < peakAbs xs" by (simp add: peakAbs_pos_iff)
      then have "peakAbs xs = 0" "normalize t xs = xs"
        using peakAbs_nonneg [of xs] normalize_silent [of xs t] by auto
      then show "peakAbs xs = 0 \<and> normalize t xs = replicate (length xs) 0"
        using all_zero_replicate [OF z] by simp
    qed
    show "((\<exists>v\<in>set xs. v \<noteq> 0) \<longrightarrow>
          peakAbs (normalize t xs) = t \<and> (\<forall>v\<in>set (normalize t xs). \<bar>v\<bar> \<le> t)
          \<and> (\<exists>v\<in>set (normalize t xs). \<bar>v\<bar> = t))
    \<and> ((\<forall>v\<in>set xs. v = 0) \<longrightarrow> peakAbs xs = 0 \<and> normalize t xs = replicate (length xs) 0)"
      using a b by blast
  qed
  have E: "encodeTobirdsong cs rnd x = Inr y \<longrightarrow>
      ((\<exists>v\<in>set (encodeSynth cs rnd x). v \<noteq> 0) \<longrightarrow>
          peakAbs y = 0.95 \<and> (\<forall>v\<in>set y. \<bar>v\<bar> \<le> 0.95) \<and> (\<exists>v\<in>set y. \<bar>v\<bar> = 0.95))
    \<and> ((\<forall>v\<in>set (encodeSynth cs rnd x). v = 0) \<longrightarrow>
          peakAbs (encodeSynth cs rnd x) = 0 \<and> y = replicate (length x) 0)"
  proof
    assume "encodeTobirdsong cs rnd x = Inr y"
    then have y: "y = normalize 0.95 (encodeSynth cs rnd x)"
      by (auto simp: encodeTobirdsong_def split: if_splits)
    have "(0::real) \<le> 0.95" by simp
    from gen [OF this, of "encodeSynth cs rnd x"]
    show "((\<exists>v\<in>set (encodeSynth cs rnd x). v \<noteq> 0) \<longrightarrow>
          peakAbs y = 0.95 \<and> (\<forall>v\<in>set y. \<bar>v\<bar> \<le> 0.95) \<and> (\<exists>v\<in>set y. \<bar>v\<bar> = 0.95))
    \<and> ((\<forall>v\<in>set (encodeSynth cs rnd x). v = 0) \<longrightarrow>
          peakAbs (encodeSynth cs rnd x) = 0 \<and> y = replicate (length x) 0)"
      unfolding y length_encodeSynth .
  qed
  let ?raw = "decodeSynth cs rnd' (decodeAnalysis cs x (nat (numFrames cs x))) (length x)"
  have D: "decodeFrombirdsong cs rnd' x = Inr y' \<longrightarrow>
      ((\<exists>v\<in>set ?raw. v \<noteq> 0) \<longrightarrow>
          peakAbs y' = 0.85 \<and> (\<forall>v\<in>set y'. \<bar>v\<bar> \<le> 0.85) \<and> (\<exists>v\<in>set y'. \<bar>v\<bar> = 0.85))
    \<and> ((\<forall>v\<in>set ?raw. v = 0) \<longrightarrow> peakAbs ?raw = 0 \<and> y' = replicate (length x) 0)"
  proof
    assume "decodeFrombirdsong cs rnd' x = Inr y'"
    then have y: "y' = normalize 0.85 ?raw"
      by (auto simp: decodeFrombirdsong_def decodeResynth_def split: if_splits)
    have "(0::real) \<le> 0.85" by simp
    from gen [OF this, of ?raw]
    show "((\<exists>v\<in>set ?raw. v \<noteq> 0) \<longrightarrow>
          peakAbs y' = 0.85 \<and> (\<forall>v\<in>set y'. \<bar>v\<bar> \<le> 0.85) \<and> (\<exists>v\<in>set y'. \<bar>v\<bar> = 0.85))
    \<and> ((\<forall>v\<in>set ?raw. v = 0) \<longrightarrow> peakAbs ?raw = 0 \<and> y' = replicate (length x) 0)"
      unfolding y length_decodeSynth .
  qed
  show ?thesis using E D by blast
qed

theorem normalized_peak_witness:
  "(\<exists>y. encodeTobirdsong demo_consts (\<lambda>k. 0) quietClick = Inr y
        \<and> peakAbs y = 0.95 \<and> (\<exists>v\<in>set y. \<bar>v\<bar> = 0.95))
   \<and> (\<exists>y. decodeFrombirdsong demo_consts (\<lambda>k. 0) quietClick = Inr y
        \<and> peakAbs y = 0.85 \<and> (\<exists>v\<in>set y. \<bar>v\<bar> = 0.85))
   \<and> encodeTobirdsong demo_consts (\<lambda>k. 0) (replicate 2048 0) = Inr (replicate 2048 0)"
proof -
  let ?rnd = "\<lambda>k::nat. 0::real"
  let ?y = "normalize 0.95 (encodeSynth demo_consts ?rnd quietClick)"
  let ?y' = "normalize 0.85 (decodeSynth demo_consts ?rnd
               (decodeAnalysis demo_consts quietClick (nat (numFrames demo_consts quietClick)))
               (length quietClick))"
  let ?z = "normalize 0.95 (encodeSynth demo_consts ?rnd (replicate 2048 0))"
  have e: "encodeTobirdsong demo_consts ?rnd quietClick = Inr ?y"
    by (simp add: encodeTobirdsong_def numFrames_quietClick)
  have d: "decodeFrombirdsong demo_consts ?rnd quietClick = Inr ?y'"
    by (simp add: decodeFrombirdsong_def decodeResynth_def numFrames_quietClick)
  have z: "encodeTobirdsong demo_consts ?rnd (replicate 2048 0) = Inr ?z"
    by (simp add: encodeTobirdsong_def demo_numFrames_silence)
  have zs: "\<forall>v\<in>set (encodeSynth demo_consts ?rnd (replicate 2048 0)). v = 0"
    by (simp add: encodeSynth_silence)
  from normalized_peak [of demo_consts ?rnd quietClick ?y ?rnd ?y']
    e d encodeSynth_quietClick_nonzero decodeSynth_quietClick_nonzero
  have a: "peakAbs ?y = 0.95 \<and> (\<exists>v\<in>set ?y. \<bar>v\<bar> = 0.95)"
    and b: "peakAbs ?y' = 0.85 \<and> (\<exists>v\<in>set ?y'. \<bar>v\<bar> = 0.85)"
    by blast+
  from normalized_peak [of demo_consts ?rnd "replicate 2048 0" ?z ?rnd "[]"] z zs
  have c: "?z = replicate 2048 0" by simp
  show ?thesis using a b c e d z by simp
qed

section \<open>The amplitude field of the decoded frames\<close>

lemma harmonicLoop_fields:
  assumes "bandEnergies frame' = bandEnergies frame" and "bandEnergies next' = bandEnergies next"
  shows "harmonicLoop cs frame' next' pos p h st = harmonicLoop cs frame next pos p h st"
proof (induction "41 - h" arbitrary: h st)
  case 0
  then show ?case by (cases st) (simp add: harmonicLoop.simps [of _ _ _ _ _ h])
next
  case (Suc k)
  have IH: "\<And>st'. harmonicLoop cs frame' next' pos p (Suc h) st'
                 = harmonicLoop cs frame next pos p (Suc h) st'"
    using Suc.hyps(1) [of "Suc h"] Suc.hyps(2) by simp
  show ?case
    by (cases st) (simp add: harmonicLoop.simps [of _ _ _ _ _ h] Let_def assms IH)
qed

lemma sibilanceLoop_fields:
  assumes "bandEnergies frame' = bandEnergies frame" and "bandEnergies next' = bandEnergies next"
  shows "sibilanceLoop cs frame' next' pos i noisePhase noise b s
       = sibilanceLoop cs frame next pos i noisePhase noise b s"
proof (induction "NUM_BANDS cs - b" arbitrary: b s rule: less_induct)
  case less
  show ?case
  proof (cases "b < NUM_BANDS cs")
    case False
    then show ?thesis by (simp add: sibilanceLoop.simps [of _ _ _ _ _ _ _ b])
  next
    case True
    then have "NUM_BANDS cs - Suc (Suc b) < NUM_BANDS cs - b" by simp
    then have IH: "\<And>s'. sibilanceLoop cs frame' next' pos i noisePhase noise (Suc (Suc b)) s'
                       = sibilanceLoop cs frame next pos i noisePhase noise (Suc (Suc b)) s'"
      using less by blast
    show ?thesis
      using True by (simp add: sibilanceLoop.simps [of _ _ _ _ _ _ _ b] Let_def assms IH)
  qed
qed

lemma samePitchAndBands_length: "samePitchAndBands fs fs' \<Longrightarrow> length fs' = length fs"
  unfolding samePitchAndBands_def by (metis length_map)

lemma samePitchAndBands_nth:
  assumes "samePitchAndBands fs fs'" and "k < length fs"
  shows "pitch (fs' ! k) = pitch (fs ! k) \<and> bandEnergies (fs' ! k) = bandEnergies (fs ! k)"
proof -
  have l: "k < length fs'" using assms samePitchAndBands_length by simp
  have "map pitch fs ! k = map pitch fs' ! k" "map bandEnergies fs ! k = map bandEnergies fs' ! k"
    using assms(1) by (simp_all add: samePitchAndBands_def)
  then show ?thesis using assms(2) l by simp
qed

lemma decodeSample_fields:
  assumes "samePitchAndBands fs fs'" and "i div HOP_SIZE cs + 1 < length fs"
  shows "decodeSample cs rnd fs' i st = decodeSample cs rnd fs i st"
proof -
  let ?k = "i div HOP_SIZE cs"
  have a: "pitch (fs' ! ?k) = pitch (fs ! ?k)" "bandEnergies (fs' ! ?k) = bandEnergies (fs ! ?k)"
    using samePitchAndBands_nth [OF assms(1), of ?k] assms(2) by simp_all
  have b: "pitch (fs' ! (?k + 1)) = pitch (fs ! (?k + 1))"
          "bandEnergies (fs' ! (?k + 1)) = bandEnergies (fs ! (?k + 1))"
    using samePitchAndBands_nth [OF assms(1), of "?k + 1"] assms(2) by simp_all
  show ?thesis
    unfolding decodeSample_def Let_def a(1) b(1)
      harmonicLoop_fields [OF a(2) b(2)] sibilanceLoop_fields [OF a(2) b(2)] ..
qed

lemma decodeLoop_fields:
  assumes "samePitchAndBands fs fs'"
  shows "decodeLoop cs rnd fs' n i st = decodeLoop cs rnd fs n i st"
  using assms
proof (induction cs rnd fs n i st rule: decodeLoop.induct)
  case (1 cs rnd frames n i st out)
  have len: "length fs' = length frames" using "1.prems" by (rule samePitchAndBands_length)
  show ?case
  proof (cases "i < n \<and> \<not> int (i div HOP_SIZE cs) \<ge> int (length frames) - 1")
    case False
    then show ?thesis
      apply (subst decodeLoop.simps [of cs rnd fs'])
      apply (subst decodeLoop.simps [of cs rnd frames])
      using len by auto
  next
    case True
    then have idx: "i div HOP_SIZE cs + 1 < length frames" by linarith
    have s: "decodeSample cs rnd fs' i st = decodeSample cs rnd frames i st"
      using "1.prems" idx by (rule decodeSample_fields)
    obtain st' v where E: "decodeSample cs rnd frames i st = (st', v)"
      by (cases "decodeSample cs rnd frames i st")
    have "decodeLoop cs rnd fs' n (i + 1) (st', out[i := v])
        = decodeLoop cs rnd frames n (i + 1) (st', out[i := v])"
      using "1.IH" [of "(st', v)" st' v] True E "1.prems" by simp
    then show ?thesis
      apply (subst decodeLoop.simps [of cs rnd fs'])
      apply (subst decodeLoop.simps [of cs rnd frames])
      using True len s E by simp
  qed
qed

text \<open>
  Claim C9. The resynthesis does not read the amplitude field: two runs with the same
  random stream over frame sequences that agree on pitch and band energies return the
  same buffer, whatever the amplitudes; overwriting every amplitude changes nothing; and
  \<open>decodeFrombirdsong\<close> returns what the resynthesis returns on its frames with the
  amplitudes overwritten.
\<close>

theorem amplitude_unused:
  "(map pitch fs = map pitch fs' \<and> map bandEnergies fs = map bandEnergies fs'
      \<longrightarrow> decodeResynth cs rnd fs n = decodeResynth cs rnd fs' n)
   \<and> decodeResynth cs rnd (map (\<lambda>fr. fr\<lparr>amplitude := a\<rparr>) fs) n = decodeResynth cs rnd fs n
   \<and> (0 < numFrames cs x \<longrightarrow>
        decodeFrombirdsong cs rnd x
          = Inr (decodeResynth cs rnd
                   (map (\<lambda>fr. fr\<lparr>amplitude := a\<rparr>) (decodeAnalysis cs x (nat (numFrames cs x))))
                   (length x)))"
proof -
  have gen: "\<And>gs gs' m. samePitchAndBands gs gs'
      \<Longrightarrow> decodeResynth cs rnd gs' m = decodeResynth cs rnd gs m"
    by (simp add: decodeResynth_def decodeSynth_def decodeLoop_fields)
  have er: "\<And>gs. samePitchAndBands gs (map (\<lambda>fr. fr\<lparr>amplitude := a\<rparr>) gs)"
    by (simp add: samePitchAndBands_def comp_def)
  show ?thesis
    using gen [of fs fs' n] gen [OF er, of fs n]
      gen [OF er, of "decodeAnalysis cs x (nat (numFrames cs x))" "length x"]
    by (simp add: samePitchAndBands_def decodeFrombirdsong_def)
qed

theorem amplitude_unused_witness:
  "decodeResynth demo_consts (\<lambda>k. 0)
      [\<lparr>bandEnergies = [1, 2], pitch = 100, amplitude = 3\<rparr>,
       \<lparr>bandEnergies = [2, 1], pitch = 0, amplitude = 4\<rparr>] 300
   = decodeResynth demo_consts (\<lambda>k. 0)
      [\<lparr>bandEnergies = [1, 2], pitch = 100, amplitude = 7\<rparr>,
       \<lparr>bandEnergies = [2, 1], pitch = 0, amplitude = 9\<rparr>] 300"
  using amplitude_unused [of
      "[\<lparr>bandEnergies = [1, 2], pitch = 100, amplitude = 3\<rparr>,
        \<lparr>bandEnergies = [2, 1], pitch = 0, amplitude = 4\<rparr>]"
      "[\<lparr>bandEnergies = [1, 2], pitch = 100, amplitude = 7\<rparr>,
        \<lparr>bandEnergies = [2, 1], pitch = 0, amplitude = 9\<rparr>]"
      demo_consts "\<lambda>k. 0" 300 0 "[]"]
  by simp

section \<open>Pitch extraction as an autocorrelation search\<close>

lemma corrLoop_sum:
  "even i \<Longrightarrow> corrLoop buffer period i c =
     c + (\<Sum>j | i \<le> j \<and> even j \<and> j + period < length buffer. buffer ! j * buffer ! (j + period))"
proof (induction buffer period i c rule: corrLoop.induct)
  case (1 buffer period i c)
  let ?S = "\<lambda>i. {j. i \<le> j \<and> even j \<and> j + period < length buffer}"
  let ?f = "\<lambda>j. buffer ! j * buffer ! (j + period)"
  show ?case
  proof (cases "int i < int (length buffer) - int period")
    case False
    then have "?S i = {}" by auto
    then have "sum ?f (?S i) = 0" by (simp only: sum.empty)
    then show ?thesis using False by (subst corrLoop.simps) simp
  next
    case True
    have "?S (i + 2) \<subseteq> {..<length buffer}" by auto
    then have fin: "finite (?S (i + 2))" by (rule finite_subset) simp
    have notin: "i \<notin> ?S (i + 2)" by simp
    have "?S i = insert i (?S (i + 2))"
    proof (intro set_eqI iffI)
      fix j assume j: "j \<in> ?S i"
      show "j \<in> insert i (?S (i + 2))"
      proof (cases "j = i")
        case True then show ?thesis by simp
      next
        case False
        then have "i < j" using j by simp
        moreover have "j \<noteq> i + 1" using j "1.prems" by auto
        ultimately have "i + 2 \<le> j" by simp
        then show ?thesis using j by simp
      qed
    next
      fix j assume "j \<in> insert i (?S (i + 2))"
      then show "j \<in> ?S i" using True "1.prems" by auto
    qed
    then have "sum ?f (?S i) = ?f i + sum ?f (?S (i + 2))"
      using fin notin by simp
    moreover have "corrLoop buffer period (i + 2) (c + ?f i) = c + ?f i + sum ?f (?S (i + 2))"
      using "1.IH" [OF True] "1.prems" by simp
    ultimately show ?thesis using True by (subst corrLoop.simps) simp
  qed
qed

lemma corrLoop_autocorr: "corrLoop buffer period 0 0 = autocorr buffer period"
  using corrLoop_sum [of 0 buffer period 0] by (simp add: autocorr_def)

lemma bestSoFar_step:
  assumes "bestSoFar buffer lo p (bc, bp)" and "lo \<le> p"
  shows "bestSoFar buffer lo (Suc p)
           (if autocorr buffer p > bc then (autocorr buffer p, p) else (bc, bp))"
proof -
  have q: "\<And>q. q < Suc p \<Longrightarrow> q < p \<or> q = p" by auto
  show ?thesis
    using assms unfolding bestSoFar_def
    by (auto simp: less_Suc_eq intro: less_imp_le order_trans dest: less_le_trans le_less_trans) 
qed

lemma periodLoop_inv:
  "lo \<le> p \<Longrightarrow> p \<le> hi \<Longrightarrow> bestSoFar buffer lo p best
     \<Longrightarrow> bestSoFar buffer lo hi (periodLoop buffer p hi best)"
proof (induction "hi - p" arbitrary: p best)
  case 0
  then have "p = hi" by simp
  then show ?case using "0.prems"(3) by (cases best) (simp add: periodLoop.simps [of _ hi])
next
  case (Suc k)
  obtain bc bp where best: "best = (bc, bp)" by (cases best)
  have lt: "p < hi" using Suc.hyps(2) by simp
  let ?best' = "if autocorr buffer p > bc then (autocorr buffer p, p) else (bc, bp)"
  have step: "bestSoFar buffer lo (Suc p) ?best'"
    using Suc.prems(3) Suc.prems(1) unfolding best by (rule bestSoFar_step)
  have "bestSoFar buffer lo hi (periodLoop buffer (Suc p) hi ?best')"
    using Suc.hyps(1) [of "Suc p" ?best'] Suc.hyps(2) Suc.prems(1) lt step by simp
  moreover have "periodLoop buffer p hi best = periodLoop buffer (Suc p) hi ?best'"
    unfolding best using lt
    by (simp add: periodLoop.simps [of _ p] Let_def corrLoop_autocorr)
  ultimately show ?case by simp
qed

lemma periodLoop_best:
  "lo \<le> hi \<Longrightarrow> bestSoFar buffer lo hi (periodLoop buffer lo hi (0, 0))"
  by (rule periodLoop_inv) (simp_all add: bestSoFar_def)

lemma floor_periods: "0 \<le> sr \<Longrightarrow> nat \<lfloor>sr / 800\<rfloor> \<le> nat \<lfloor>sr / 70\<rfloor>"
  by (intro nat_mono floor_mono) (simp add: field_simps)

lemma extractPitch_cases:
  assumes "0 \<le> sr"
  obtains (silent) "rms buffer < 0.01" "extractPitch buffer sr = 0"
  | (none) "\<not> rms buffer < 0.01" "extractPitch buffer sr = 0"
      "\<forall>q\<in>candidatePeriods sr. autocorr buffer q \<le> 0"
  | (found) bp where "\<not> rms buffer < 0.01" "bp \<in> candidatePeriods sr"
      "extractPitch buffer sr = (if bp > 0 then sr / real bp else 0)"
      "0 < autocorr buffer bp"
      "\<forall>q\<in>candidatePeriods sr. autocorr buffer q \<le> autocorr buffer bp"
      "\<forall>q\<in>candidatePeriods sr. q < bp \<longrightarrow> autocorr buffer q < autocorr buffer bp"
proof (cases "rms buffer < 0.01")
  case True
  then show ?thesis using silent by (simp add: extractPitch_def Let_def split: prod.splits)
next
  case False
  let ?lo = "nat \<lfloor>sr / 800\<rfloor>" and ?hi = "nat \<lfloor>sr / 70\<rfloor>"
  obtain bc bp where r: "periodLoop buffer ?lo ?hi (0, 0) = (bc, bp)"
    by (cases "periodLoop buffer ?lo ?hi (0, 0)")
  have b: "bestSoFar buffer ?lo ?hi (bc, bp)"
    using periodLoop_best [OF floor_periods [OF assms], of buffer] r by simp
  have e: "extractPitch buffer sr = (if bp > 0 then sr / real bp else 0)"
    using False r by (simp add: extractPitch_def Let_def)
  from b consider
      "bc = 0" "bp = 0" "\<forall>q. ?lo \<le> q \<and> q < ?hi \<longrightarrow> autocorr buffer q \<le> 0"
    | "?lo \<le> bp" "bp < ?hi" "bc = autocorr buffer bp" "0 < bc"
      "\<forall>q. ?lo \<le> q \<and> q < ?hi \<longrightarrow> autocorr buffer q \<le> bc"
      "\<forall>q. ?lo \<le> q \<and> q < bp \<longrightarrow> autocorr buffer q < bc"
    unfolding bestSoFar_def by auto
  then show ?thesis
  proof cases
    case 1
    then show ?thesis using none False e by (simp add: candidatePeriods_def)
  next
    case 2
    then show ?thesis using found [of bp] False e by (simp add: candidatePeriods_def)
  qed
qed

lemma length_impulsePair: "0 < d \<Longrightarrow> length (impulsePair d) = d + 1"
  by (simp add: impulsePair_def)

lemma nth_impulsePair:
  "0 < d \<Longrightarrow> i \<le> d \<Longrightarrow> impulsePair d ! i = (if i = 0 \<or> i = d then 1 else 0)"
  by (auto simp: impulsePair_def nth_Cons' nth_append)

lemma autocorr_impulsePair:
  assumes "0 < d" and "0 < q"
  shows "autocorr (impulsePair d) q = (if q = d then 1 else 0)"
proof -
  let ?S = "{i. even i \<and> i + q < length (impulsePair d)}"
  have fin: "finite ?S" by (rule finite_subset [of _ "{..<length (impulsePair d)}"]) auto
  have tm: "impulsePair d ! i * impulsePair d ! (i + q)
              = (if i = 0 then (if q = d then 1 else 0) else 0)" if "i \<in> ?S" for i
  proof -
    have "i + q \<le> d" using that assms(1) by (simp add: length_impulsePair)
    then show ?thesis using assms by (simp add: nth_impulsePair)
  qed
  have "autocorr (impulsePair d) q = (\<Sum>i\<in>?S. if i = 0 then (if q = d then 1 else 0) else 0)"
    unfolding autocorr_def by (rule sum.cong) (use tm in auto)
  also have "\<dots> = (if 0 \<in> ?S then (if q = d then 1 else 0) else 0)"
    using fin by (simp only: sum.delta' [OF fin] sum.delta [OF fin])
  finally show ?thesis using assms by (auto simp: length_impulsePair)
qed

lemma rms_impulsePair: "0 < d \<Longrightarrow> rms (impulsePair d) = sqrt (2 / (real d + 1))"
  by (simp add: rms_def foldl_sumsq impulsePair_def sum_list_replicate)

lemma impulsePair_loud:
  assumes "0 < d" and "d < 20000"
  shows "\<not> rms (impulsePair d) < 0.01"
proof -
  have "real d + 1 \<le> 20000" using assms(2) by simp
  then have "(1 / 100)\<^sup>2 \<le> 2 / (real d + 1)"
    by (simp add: power2_eq_square pos_le_divide_eq)
  then have "1 / 100 \<le> sqrt (2 / (real d + 1))" by (rule real_le_rsqrt)
  then show ?thesis using assms(1) by (simp add: rms_impulsePair)
qed

lemma extractPitch_impulsePair:
  assumes "800 \<le> sr" and "0 < d" and "d < 20000"
  shows "extractPitch (impulsePair d) sr = (if d \<in> candidatePeriods sr then sr / real d else 0)"
proof -
  have sr0: "0 \<le> sr" using assms(1) by simp
  have fl: "1 \<le> \<lfloor>sr / 800\<rfloor>" using assms(1) by (simp add: le_floor_iff)
  have lo1: "0 < p" if "p \<in> candidatePeriods sr" for p
  proof -
    have "nat \<lfloor>sr / 800\<rfloor> \<le> p" using that by (simp add: candidatePeriods_def)
    moreover have "1 \<le> nat \<lfloor>sr / 800\<rfloor>" using fl by linarith
    ultimately show ?thesis by linarith
  qed
  note loud = impulsePair_loud [OF assms(2,3)]
  from sr0 show ?thesis
  proof (cases rule: extractPitch_cases [where buffer = "impulsePair d"])
    case silent then show ?thesis using loud by simp
  next
    case none
    have "d \<notin> candidatePeriods sr"
    proof
      assume "d \<in> candidatePeriods sr"
      then have "autocorr (impulsePair d) d \<le> 0" using none(3) by blast
      then show False using assms(2) by (simp add: autocorr_impulsePair)
    qed
    then show ?thesis using none(2) by simp
  next
    case (found bp)
    have bp: "0 < bp" using found(2) by (rule lo1)
    have "bp = d" using found(4) autocorr_impulsePair [OF assms(2) bp] by (cases "bp = d") simp_all
    then show ?thesis using found(2,3) bp by simp
  qed
qed

lemma candidatePeriods_44100: "candidatePeriods 44100 = {55..<630}"
  by (simp add: candidatePeriods_def)

text \<open>
  Claim C10. With a positive sample rate, a nonzero result of \<open>extractPitch\<close> is
  \<open>sampleRate / period\<close> for a period with
  \<open>floor (sampleRate / 800) \<le> period < floor (sampleRate / 70)\<close>; it is strictly above
  70 Hz and, where \<open>floor (sampleRate / 800)\<close> is positive, at most
  \<open>sampleRate / floor (sampleRate / 800)\<close>, a bound that is itself at least 800 Hz.
\<close>

theorem extractPitch_range:
  assumes "0 < sr" and "extractPitch buffer sr \<noteq> 0"
  shows "70 < extractPitch buffer sr
    \<and> (\<exists>period. nat \<lfloor>sr / 800\<rfloor> \<le> period \<and> period < nat \<lfloor>sr / 70\<rfloor> \<and> 0 < period
          \<and> extractPitch buffer sr = sr / real period)
    \<and> (0 < \<lfloor>sr / 800\<rfloor> \<longrightarrow>
          extractPitch buffer sr \<le> sr / of_int \<lfloor>sr / 800\<rfloor> \<and> 800 \<le> sr / of_int \<lfloor>sr / 800\<rfloor>)"
proof -
  have sr0: "0 \<le> sr" using assms(1) by simp
  from sr0 show ?thesis
  proof (cases rule: extractPitch_cases [where buffer = buffer])
    case silent then show ?thesis using assms(2) by simp
  next
    case none then show ?thesis using assms(2) by simp
  next
    case (found bp)
    have pos: "0 < bp" using found(3) assms(2) by (cases "bp > 0") simp_all
    have e: "extractPitch buffer sr = sr / real bp" using found(3) pos by simp
    have lo: "nat \<lfloor>sr / 800\<rfloor> \<le> bp" and hi: "bp < nat \<lfloor>sr / 70\<rfloor>"
      using found(2) by (simp_all add: candidatePeriods_def)
    have "int bp + 1 \<le> \<lfloor>sr / 70\<rfloor>" using hi by linarith
    then have "real bp + 1 \<le> sr / 70" by linarith
    then have "70 * real bp < sr" by simp
    then have a: "70 < sr / real bp" using pos by (simp add: pos_less_divide_eq)
    have c: "0 < \<lfloor>sr / 800\<rfloor> \<longrightarrow>
          sr / real bp \<le> sr / of_int \<lfloor>sr / 800\<rfloor> \<and> 800 \<le> sr / of_int \<lfloor>sr / 800\<rfloor>"
    proof
      assume f: "0 < \<lfloor>sr / 800\<rfloor>"
      then have "real_of_int \<lfloor>sr / 800\<rfloor> \<le> real bp" using lo by linarith
      moreover have fp: "0 < real_of_int \<lfloor>sr / 800\<rfloor>" using f by simp
      moreover have "0 < real bp * real_of_int \<lfloor>sr / 800\<rfloor>" using pos fp by simp
      ultimately have 1: "sr / real bp \<le> sr / of_int \<lfloor>sr / 800\<rfloor>"
        using assms(1) by (intro divide_left_mono) simp_all
      have "real_of_int \<lfloor>sr / 800\<rfloor> \<le> sr / 800" by linarith
      then have "800 * real_of_int \<lfloor>sr / 800\<rfloor> \<le> sr" by simp
      then have 2: "800 \<le> sr / of_int \<lfloor>sr / 800\<rfloor>" using f by (simp add: pos_le_divide_eq)
      show "sr / real bp \<le> sr / of_int \<lfloor>sr / 800\<rfloor> \<and> 800 \<le> sr / of_int \<lfloor>sr / 800\<rfloor>"
        using 1 2 by simp
    qed
    show ?thesis unfolding e using a c lo hi pos by blast
  qed
qed

theorem extractPitch_range_witness:
  "(0::real) < 44100 \<and> extractPitch (impulsePair 100) 44100 \<noteq> 0
   \<and> 70 < extractPitch (impulsePair 100) 44100
   \<and> extractPitch (impulsePair 100) 44100 \<le> 44100 / 55
   \<and> extractPitch (impulsePair 100) 44100 = 441"
proof -
  have e: "extractPitch (impulsePair 100) 44100 = 441"
    using extractPitch_impulsePair [of 44100 100] by (simp add: candidatePeriods_44100)
  then have n: "extractPitch (impulsePair 100) 44100 \<noteq> 0" by simp
  have f: "\<lfloor>44100 / 800 :: real\<rfloor> = 55" by simp
  have "(0::real) < 44100" by simp
  from extractPitch_range [OF this n] have "70 < extractPitch (impulsePair 100) 44100"
    and "extractPitch (impulsePair 100) 44100 \<le> 44100 / 55"
    unfolding f by simp_all
  then show ?thesis using e n by simp
qed

text \<open>
  Claim C6, as stated, fails at both ends of the range \<open>[sampleRate/800, sampleRate/70]\<close>.
  At 44100 Hz that range is \<open>[55.125, 630]\<close>. Two impulses 55 samples apart give
  \<open>44100 / 55\<close>, above 800 Hz: the winning period 55 is below the range. Two impulses 630
  samples apart give 0, although the window is not silent and the sum at period 630,
  which is inside the range, is positive: the search stops before 630.
\<close>

theorem extractPitch_autocorrelation_counterexample:
  "extractPitch (impulsePair 55) 44100 = 44100 / 55
   \<and> \<not> 44100 / 800 \<le> (55::real)
   \<and> 800 < extractPitch (impulsePair 55) 44100
   \<and> extractPitch (impulsePair 630) 44100 = 0
   \<and> \<not> rms (impulsePair 630) < 0.01
   \<and> 0 < autocorr (impulsePair 630) 630
   \<and> 44100 / 800 \<le> (630::real) \<and> (630::real) \<le> 44100 / 70"
proof -
  have a: "extractPitch (impulsePair 55) 44100 = 44100 / 55"
    using extractPitch_impulsePair [of 44100 55] by (simp add: candidatePeriods_44100)
  have b: "extractPitch (impulsePair 630) 44100 = 0"
    using extractPitch_impulsePair [of 44100 630] by (simp add: candidatePeriods_44100)
  have c: "\<not> rms (impulsePair 630) < 0.01" by (rule impulsePair_loud) simp_all
  have d: "0 < autocorr (impulsePair 630) 630" by (simp add: autocorr_impulsePair)
  show ?thesis using a b c d by simp
qed

text \<open>
  Claim C6, amended. For \<open>sampleRate \<ge> 800\<close>, the pitch estimate of a (non-empty) window
  is computed
  from the unnormalised autocorrelation sums \<open>autocorr buffer p\<close> (the inner loop computes
  exactly this sum) over the integer periods \<open>p\<close> with
  \<open>floor (sampleRate / 800) \<le> p < floor (sampleRate / 70)\<close>: the result is 0 if the RMS
  of the window is below 0.01; otherwise 0 if no such period has a positive sum;
  otherwise \<open>sampleRate / p\<close> for the first such period \<open>p\<close> whose sum is maximal.
\<close>

theorem extractPitch_autocorrelation:
  assumes "800 \<le> sr" and "buffer \<noteq> []"
  shows "rms buffer = sqrt ((\<Sum>v\<leftarrow>buffer. v\<^sup>2) / real (length buffer))
    \<and> (\<forall>p. corrLoop buffer p 0 0 = autocorr buffer p)
    \<and> (rms buffer < 0.01 \<longrightarrow> extractPitch buffer sr = 0)
    \<and> (\<not> rms buffer < 0.01 \<and> (\<forall>p\<in>candidatePeriods sr. autocorr buffer p \<le> 0)
          \<longrightarrow> extractPitch buffer sr = 0)
    \<and> (\<not> rms buffer < 0.01 \<and> (\<exists>p\<in>candidatePeriods sr. 0 < autocorr buffer p)
          \<longrightarrow> (\<exists>p\<in>candidatePeriods sr.
                 extractPitch buffer sr = sr / real p
               \<and> (\<forall>q\<in>candidatePeriods sr. autocorr buffer q \<le> autocorr buffer p)
               \<and> (\<forall>q\<in>candidatePeriods sr. q < p \<longrightarrow> autocorr buffer q < autocorr buffer p)))"
proof -
  have sr0: "0 \<le> sr" using assms by simp
  have fl: "1 \<le> \<lfloor>sr / 800\<rfloor>" using assms by (simp add: le_floor_iff)
  have lo1: "0 < p" if "p \<in> candidatePeriods sr" for p
  proof -
    have "nat \<lfloor>sr / 800\<rfloor> \<le> p" using that by (simp add: candidatePeriods_def)
    moreover have "1 \<le> nat \<lfloor>sr / 800\<rfloor>" using fl by linarith
    ultimately show ?thesis by linarith
  qed
  have main: "(rms buffer < 0.01 \<longrightarrow> extractPitch buffer sr = 0)
    \<and> (\<not> rms buffer < 0.01 \<and> (\<forall>p\<in>candidatePeriods sr. autocorr buffer p \<le> 0)
          \<longrightarrow> extractPitch buffer sr = 0)
    \<and> (\<not> rms buffer < 0.01 \<and> (\<exists>p\<in>candidatePeriods sr. 0 < autocorr buffer p)
          \<longrightarrow> (\<exists>p\<in>candidatePeriods sr.
                 extractPitch buffer sr = sr / real p
               \<and> (\<forall>q\<in>candidatePeriods sr. autocorr buffer q \<le> autocorr buffer p)
               \<and> (\<forall>q\<in>candidatePeriods sr. q < p \<longrightarrow> autocorr buffer q < autocorr buffer p)))"
    using sr0
  proof (cases rule: extractPitch_cases [where buffer = buffer])
    case silent then show ?thesis by simp
  next
    case none then show ?thesis by fastforce
  next
    case (found bp)
    have "extractPitch buffer sr = sr / real bp" using found(3) lo1 [OF found(2)] by simp
    moreover have "\<not> (\<forall>p\<in>candidatePeriods sr. autocorr buffer p \<le> 0)"
      using found(2,4) by fastforce
    ultimately show ?thesis using found by blast
  qed
  show ?thesis using main rms_eq [of buffer] corrLoop_autocorr [of buffer] by blast
qed

theorem extractPitch_autocorrelation_witness:
  "(800::real) \<le> 44100
   \<and> impulsePair 100 \<noteq> []
   \<and> \<not> rms (impulsePair 100) < 0.01
   \<and> 100 \<in> candidatePeriods 44100
   \<and> corrLoop (impulsePair 100) 100 0 0 = 1
   \<and> extractPitch (impulsePair 100) 44100 = 44100 / 100"
proof -
  have h: "(800::real) \<le> 44100" by simp
  have ne: "impulsePair 100 \<noteq> []" by (simp add: impulsePair_def)
  note t = extractPitch_autocorrelation [OF h ne]
  have loud: "\<not> rms (impulsePair 100) < 0.01" by (rule impulsePair_loud) simp_all
  have mem: "100 \<in> candidatePeriods 44100" by (simp add: candidatePeriods_44100)
  have ac: "autocorr (impulsePair 100) 100 = 1" by (simp add: autocorr_impulsePair)
  from t have c: "corrLoop (impulsePair 100) 100 0 0 = 1" using ac by simp
  have "\<exists>p\<in>candidatePeriods 44100. 0 < autocorr (impulsePair 100) p" using mem ac by force
  with t loud obtain p where p: "p \<in> candidatePeriods 44100"
      "extractPitch (impulsePair 100) 44100 = 44100 / real p"
      "\<forall>q\<in>candidatePeriods 44100. autocorr (impulsePair 100) q \<le> autocorr (impulsePair 100) p"
    by blast
  have "0 < p" using p(1) by (simp add: candidatePeriods_44100)
  moreover have "1 \<le> autocorr (impulsePair 100) p" using p(3) mem ac by force
  ultimately have "p = 100" using autocorr_impulsePair [of 100 p] by (cases "p = 100") simp_all
  then show ?thesis using h ne loud mem c p(2) by simp
qed

end
